theory Spec2Isabelle
  imports Complex_Main
begin

section \<open>Timing rows\<close>

text \<open>
  A network (marker) timing row, as consumed by the network track canvas: parallel
  sequences of start times, end times and marker indexes, and the count of entries.
  Times are JavaScript numbers; they are modelled by any linearly ordered type (NaN and
  the infinities are not times of a profile).
\<close>

record 'a MarkerTiming =
  mt_start :: "'a list"
  mt_end :: "'a list"
  mt_index :: "nat list"
  mt_length :: nat

text \<open>Reading a JavaScript array: an index outside the array gives \<open>undefined\<close> (here \<open>None\<close>).\<close>

definition js_get :: "'b list \<Rightarrow> int \<Rightarrow> 'b option" where
  "js_get xs i = (if 0 \<le> i \<and> i < int (length xs) then Some (xs ! nat i) else None)"

text \<open>\<open>a < b\<close> on JavaScript numbers where either side may be \<open>undefined\<close>: the comparison
  with \<open>undefined\<close> is false.\<close>

definition js_lt :: "'a::linorder option \<Rightarrow> 'a option \<Rightarrow> bool" where
  "js_lt a b = (case a of None \<Rightarrow> False | Some x \<Rightarrow> (case b of None \<Rightarrow> False | Some y \<Rightarrow> x < y))"

text \<open>The value of \<open>closestMarkerStart\<close>: \<open>-Infinity\<close> at first, then a start time
  (or \<open>undefined\<close>, which no comparison ever stores).\<close>

datatype 'a closest_start = NegInfinity | Start 'a

text \<open>\<open>start > closestMarkerStart\<close>.\<close>

definition js_gt_closest :: "'a::linorder option \<Rightarrow> 'a closest_start \<Rightarrow> bool" where
  "js_gt_closest a c =
     (case a of None \<Rightarrow> False
      | Some x \<Rightarrow> (case c of NegInfinity \<Rightarrow> True | Start y \<Rightarrow> y < x))"

text \<open>What \<open>_hitTest\<close> returns: \<open>null\<close>, a marker index, or \<open>undefined\<close> when the index was
  read outside the \<open>index\<close> array.\<close>

datatype js_index = Null | Undefined | MarkerIndex nat

definition read_index :: "nat option \<Rightarrow> js_index" where
  "read_index v = (case v of None \<Rightarrow> Undefined | Some m \<Rightarrow> MarkerIndex m)"

section \<open>Bisection\<close>

text \<open>
  Modelled from the spec: \<open>bisectionRight\<close> of \<open>utils/bisect\<close> is not part of the sources
  at hand. The specification gives its semantics as "leftmost index greater than target":
  the leftmost index whose element is greater than the target, which is the length of the
  array when no element is. The caller's comment says the same: "Bisection returns the
  index where we would insert the element."
\<close>

definition bisectionRight :: "'a::linorder list \<Rightarrow> 'a \<Rightarrow> nat" where
  "bisectionRight array x = length (takeWhile (\<lambda>s. s \<le> x) array)"

section \<open>The hit test of the network track\<close>

text \<open>\<open>const indexInRow = bisectionRight(timingRow.start, time) - 1;\<close>\<close>

definition indexInRow :: "'a::linorder MarkerTiming \<Rightarrow> 'a \<Rightarrow> int" where
  "indexInRow timingRow time = int (bisectionRight (mt_start timingRow) time) - 1"

text \<open>
  The first part of the loop body of \<open>_hitTest\<close>: the two guards that \<open>continue\<close>.
  \<open>None\<close> is a row that is skipped; otherwise the result holds \<open>start\<close> and the marker
  index read at \<open>indexInRow\<close>.
\<close>

definition rowCandidate :: "'a::linorder MarkerTiming \<Rightarrow> 'a \<Rightarrow> ('a option \<times> js_index) option" where
  "rowCandidate timingRow time =
     (let k = indexInRow timingRow time in
      if k < 0 then None
      else
        let start = js_get (mt_start timingRow) k;
            end_k = js_get (mt_end timingRow) k
        in if js_lt end_k (Some time) then None
           else Some (start, read_index (js_get (mt_index timingRow) k)))"

record 'a closest =
  closestMarkerIndex :: js_index
  closestMarkerStart :: "'a closest_start"

definition closest_init :: "'a closest" where
  "closest_init = \<lparr>closestMarkerIndex = Null, closestMarkerStart = NegInfinity\<rparr>"

text \<open>The whole loop body: the guards, then \<open>if (start > closestMarkerStart) {...}\<close>.\<close>

definition probeRow :: "'a::linorder MarkerTiming \<Rightarrow> 'a \<Rightarrow> 'a closest \<Rightarrow> 'a closest" where
  "probeRow timingRow time c =
     (case rowCandidate timingRow time of
        None \<Rightarrow> c
      | Some (start, m) \<Rightarrow>
          (case start of
             None \<Rightarrow> c
           | Some s \<Rightarrow>
               if js_gt_closest start (closestMarkerStart c)
               then \<lparr>closestMarkerIndex = m, closestMarkerStart = Start s\<rparr>
               else c))"

text \<open>What a call throws: a TypeError of the runtime, or an \<open>Error\<close> with its message.\<close>

datatype js_error = TypeError | Error string

text \<open>How a call ends: it returns a value, throws, or never returns.\<close>

datatype 'r outcome = Returns 'r | Throws js_error | Diverges

text \<open>
  \<open>for (let i = row; i < networkTiming.length; i += TRACK_NETWORK_ROW_REPEAT)\<close>.
  The constant \<open>TRACK_NETWORK_ROW_REPEAT\<close> is defined outside the sources at hand and is
  the parameter \<open>R\<close>. A negative \<open>i\<close> reads \<open>networkTiming[i]\<close> as \<open>undefined\<close>, and
  \<open>timingRow.start\<close> then throws a TypeError; with \<open>R = 0\<close> the loop never advances.
\<close>

function hitLoop ::
  "nat \<Rightarrow> 'a::linorder MarkerTiming list \<Rightarrow> 'a \<Rightarrow> int \<Rightarrow> 'a closest \<Rightarrow> js_index outcome" where
  "hitLoop R networkTiming time i c =
     (if i < int (length networkTiming) then
        (if i < 0 then Throws TypeError
         else if R = 0 then Diverges
         else hitLoop R networkTiming time (i + int R)
                (probeRow (networkTiming ! nat i) time c))
      else Returns (closestMarkerIndex c))"
  by pat_completeness auto
termination
  by (relation "measure (\<lambda>(R, nt, t, i, c). nat (int (length nt) - i))") auto

declare hitLoop.simps [simp del]

text \<open>
  \<open>_hitTest\<close> from the row and the time it computes from the pointer position
  (\<open>row = Math.floor(y / TRACK_NETWORK_ROW_HEIGHT)\<close>,
  \<open>time = rangeStart + (x / width) * rangeLength\<close>, floating-point arithmetic that is
  left outside the model).
\<close>

definition hitTest ::
  "nat \<Rightarrow> 'a::linorder MarkerTiming list \<Rightarrow> int \<Rightarrow> 'a \<Rightarrow> js_index outcome" where
  "hitTest R networkTiming row time = hitLoop R networkTiming time row closest_init"

text \<open>The indexes of \<open>networkTiming\<close> that the loop visits, in order, starting at \<open>i\<close>.\<close>

function consultedRows :: "nat \<Rightarrow> nat \<Rightarrow> nat \<Rightarrow> nat list" where
  "consultedRows R n i = (if i < n \<and> 0 < R then i # consultedRows R n (i + R) else [])"
  by pat_completeness auto
termination
  by (relation "measure (\<lambda>(R, n, i). n - i)") auto

declare consultedRows.simps [simp del]

text \<open>The parallel sequences of a row have one length.\<close>

definition parallel :: "'a MarkerTiming \<Rightarrow> bool" where
  "parallel timingRow \<longleftrightarrow>
     length (mt_end timingRow) = length (mt_start timingRow) \<and>
     length (mt_index timingRow) = length (mt_start timingRow)"

text \<open>Marker \<open>k\<close> of a row contains the time: \<open>start[k] \<le> time \<le> end[k]\<close>.\<close>

definition covers :: "'a::linorder MarkerTiming \<Rightarrow> nat \<Rightarrow> 'a \<Rightarrow> bool" where
  "covers timingRow k time \<longleftrightarrow>
     k < length (mt_start timingRow) \<and> mt_start timingRow ! k \<le> time \<and> time \<le> mt_end timingRow ! k"

text \<open>
  The invariant of a timing row: for all valid \<open>i\<close>, \<open>start[i] \<le> end[i]\<close> and
  \<open>end[i] \<le> start[i+1]\<close>, here on the list of (start, end) pairs.
\<close>

fun chained :: "('a::linorder \<times> 'a) list \<Rightarrow> bool" where
  "chained [] = True"
| "chained [(s, e)] = (s \<le> e)"
| "chained ((s, e) # (s', e') # rest) = (s \<le> e \<and> e \<le> s' \<and> chained ((s', e') # rest))"

definition rowInvariant :: "'a::linorder MarkerTiming \<Rightarrow> bool" where
  "rowInvariant timingRow \<longleftrightarrow>
     parallel timingRow \<and> chained (zip (mt_start timingRow) (mt_end timingRow))"

text \<open>The rows the loop has visited, folded through the loop body.\<close>

definition probeRows :: "'a::linorder MarkerTiming list \<Rightarrow> 'a \<Rightarrow> nat list \<Rightarrow> 'a closest \<Rightarrow> 'a closest" where
  "probeRows nt t js c = foldl (\<lambda>c j. probeRow (nt ! j) t c) c js"

text \<open>
  Marker \<open>k\<close> of row \<open>j\<close> contains the time and no marker of the rows \<open>js\<close> that
  contains it starts later.
\<close>

definition closestAt :: "'a::linorder MarkerTiming list \<Rightarrow> 'a \<Rightarrow> nat list \<Rightarrow> nat \<Rightarrow> nat \<Rightarrow> bool" where
  "closestAt nt t js j k \<longleftrightarrow>
     j \<in> set js \<and> covers (nt ! j) k t \<and>
     (\<forall>j'\<in>set js. \<forall>k'. covers (nt ! j') k' t \<longrightarrow>
        mt_start (nt ! j') ! k' \<le> mt_start (nt ! j) ! k)"

text \<open>The loop invariant of \<open>_hitTest\<close> after the rows \<open>js\<close>.\<close>

definition closestAmong :: "'a::linorder MarkerTiming list \<Rightarrow> 'a \<Rightarrow> nat list \<Rightarrow> 'a closest \<Rightarrow> bool" where
  "closestAmong nt t js c \<longleftrightarrow>
     (c = closest_init \<and> (\<forall>j\<in>set js. \<forall>k. \<not> covers (nt ! j) k t)) \<or>
     (\<exists>j k. closestAt nt t js j k \<and>
        c = \<lparr>closestMarkerIndex = MarkerIndex (mt_index (nt ! j) ! k),
             closestMarkerStart = Start (mt_start (nt ! j) ! k)\<rparr>)"

text \<open>
  Row \<open>j\<close> of the rows \<open>js\<close> passes both guards of the loop body with the start \<open>s\<close>
  and the marker index \<open>m\<close>, and no row of \<open>js\<close> passes them with a later start.
\<close>

definition latestCandidate ::
  "'a::linorder MarkerTiming list \<Rightarrow> 'a \<Rightarrow> nat list \<Rightarrow> nat \<Rightarrow> 'a \<Rightarrow> js_index \<Rightarrow> bool" where
  "latestCandidate nt t js j s m \<longleftrightarrow>
     j \<in> set js \<and> rowCandidate (nt ! j) t = Some (Some s, m) \<and>
     (\<forall>j'\<in>set js. \<forall>s' m'. rowCandidate (nt ! j') t = Some (Some s', m') \<longrightarrow> s' \<le> s)"

text \<open>
  What the loop of \<open>_hitTest\<close> holds after the rows \<open>js\<close>, in terms of the rows that
  passed the guards: nothing when none did, otherwise the marker of the latest start.
\<close>

definition candidateKept ::
  "'a::linorder MarkerTiming list \<Rightarrow> 'a \<Rightarrow> nat list \<Rightarrow> 'a closest \<Rightarrow> bool" where
  "candidateKept nt t js c \<longleftrightarrow>
     (c = closest_init \<and> (\<forall>j\<in>set js. rowCandidate (nt ! j) t = None)) \<or>
     (\<exists>j s m. latestCandidate nt t js j s m \<and>
        c = \<lparr>closestMarkerIndex = m, closestMarkerStart = Start s\<rparr>)"

section \<open>Drawing the network track\<close>

text \<open>
  One stroke of \<open>drawCanvas\<close>: \<open>ctx.moveTo(start, y); ctx.lineTo(end, y)\<close>. A coordinate
  is \<open>None\<close> when JavaScript computes no finite number for it (an entry read outside its
  array, a division by a zero range length, \<open>rowIndex % 0\<close>).
\<close>

record 'a stroke =
  stroke_from :: "'a option"
  stroke_to :: "'a option"
  stroke_y :: "'a option"

text \<open>
  \<open>const y = (rowIndex % TRACK_NETWORK_ROW_REPEAT) * rowHeight + rowHeight * 0.5;\<close>
  with \<open>rowHeight = TRACK_NETWORK_ROW_HEIGHT * devicePixelRatio\<close>.
\<close>

definition rowY :: "nat \<Rightarrow> 'a::linordered_field \<Rightarrow> nat \<Rightarrow> 'a option" where
  "rowY R rowHeight rowIndex =
     (if R = 0 then None
      else Some (of_nat (rowIndex mod R) * rowHeight + rowHeight * (1 / 2)))"

text \<open>\<open>(canvas.width / rangeLength) * (timing.start[timingIndex] - rangeStart)\<close>\<close>

definition toCanvasX :: "'a::linordered_field \<Rightarrow> 'a \<Rightarrow> 'a \<Rightarrow> 'a option \<Rightarrow> 'a option" where
  "toCanvasX canvasWidth rangeStart rangeLength v =
     (case v of None \<Rightarrow> None
      | Some s \<Rightarrow> if rangeLength = 0 then None
                  else Some ((canvasWidth / rangeLength) * (s - rangeStart)))"

text \<open>The inner loop of \<open>drawCanvas\<close>: the strokes of one row.\<close>

definition drawRow ::
  "nat \<Rightarrow> 'a::linordered_field \<Rightarrow> 'a \<Rightarrow> 'a \<Rightarrow> 'a \<Rightarrow> nat \<Rightarrow> 'a MarkerTiming \<Rightarrow> 'a stroke list" where
  "drawRow R rowHeight canvasWidth rangeStart rangeEnd rowIndex timing =
     map (\<lambda>timingIndex.
            \<lparr>stroke_from = toCanvasX canvasWidth rangeStart (rangeEnd - rangeStart)
                              (js_get (mt_start timing) (int timingIndex)),
             stroke_to = toCanvasX canvasWidth rangeStart (rangeEnd - rangeStart)
                            (js_get (mt_end timing) (int timingIndex)),
             stroke_y = rowY R rowHeight rowIndex\<rparr>)
         [0..<mt_length timing]"

text \<open>The outer loop of \<open>drawCanvas\<close>: every row of \<open>networkTiming\<close> in turn.\<close>

definition drawCanvas ::
  "nat \<Rightarrow> 'a::linordered_field \<Rightarrow> 'a \<Rightarrow> 'a \<Rightarrow> 'a \<Rightarrow> 'a MarkerTiming list \<Rightarrow> 'a stroke list" where
  "drawCanvas R rowHeight canvasWidth rangeStart rangeEnd networkTiming =
     concat (map (\<lambda>rowIndex. drawRow R rowHeight canvasWidth rangeStart rangeEnd rowIndex
                                (networkTiming ! rowIndex))
                 [0..<length networkTiming])"

section \<open>Example rows\<close>

definition ex_rowA :: "rat MarkerTiming" where
  "ex_rowA = \<lparr>mt_start = [0, 10], mt_end = [5, 20], mt_index = [0, 2], mt_length = 2\<rparr>"
definition ex_rowB :: "rat MarkerTiming" where
  "ex_rowB = \<lparr>mt_start = [2], mt_end = [30], mt_index = [1], mt_length = 1\<rparr>"
definition ex_rowC :: "rat MarkerTiming" where
  "ex_rowC = \<lparr>mt_start = [12], mt_end = [18], mt_index = [3], mt_length = 1\<rparr>"
definition ex_networkTiming :: "rat MarkerTiming list" where
  "ex_networkTiming = [ex_rowA, ex_rowB, ex_rowC]"

definition ex_emptyRow :: "rat MarkerTiming" where
  "ex_emptyRow = \<lparr>mt_start = [], mt_end = [], mt_index = [], mt_length = 0\<rparr>"

definition ex_otherTiming :: "rat MarkerTiming list" where
  "ex_otherTiming = [ex_rowA, ex_rowC, ex_rowC]"

definition ex_ratRow :: "rat MarkerTiming" where
  "ex_ratRow = \<lparr>mt_start = [1, 4], mt_end = [2, 6], mt_index = [0, 1], mt_length = 2\<rparr>"

section \<open>Local tracks\<close>

text \<open>
  A local track as \<open>LocalTrack.js\<close> reads it: the tag \<open>type\<close> and the fields of the four
  variants (\<open>threadIndex\<close> of a thread or network track, \<open>counterIndex\<close> of a memory
  track, \<open>overheadIndex\<close> and \<open>overheadType\<close> of an overhead track). The tag is a string,
  as it is at run time: Flow's type of the four tags is erased.
\<close>

record LocalTrack =
  track_type :: string
  threadIndex :: nat
  counterIndex :: nat
  overheadIndex :: nat
  overheadType :: string

text \<open>The element \<open>renderTrack\<close> returns.\<close>

datatype element =
  TrackThread nat
  | TrackNetwork nat
  | TrackMemory nat
  | TrackOverhead nat string

text \<open>
  \<open>LocalTrackComponent.renderTrack\<close>: the switch over \<open>localTrack.type\<close>. The result holds
  what was written with \<open>console.error\<close> and the value returned (\<open>None\<close> is \<open>null\<close>).
\<close>

definition renderTrack :: "LocalTrack \<Rightarrow> (string list \<times> element option) outcome" where
  "renderTrack localTrack =
     (if track_type localTrack = ''thread''
        then Returns ([], Some (TrackThread (threadIndex localTrack)))
      else if track_type localTrack = ''network''
        then Returns ([], Some (TrackNetwork (threadIndex localTrack)))
      else if track_type localTrack = ''memory''
        then Returns ([], Some (TrackMemory (counterIndex localTrack)))
      else if track_type localTrack = ''overhead''
        then Returns ([], Some (TrackOverhead (overheadIndex localTrack) (overheadType localTrack)))
      else Returns ([''Unhandled localTrack type''], None))"










section \<open>The call-node table\<close>

text \<open>
  The call-node table of the specification's data model, column by column: each node's
  parent (\<open>None\<close> for a root), its depth and its category. A node's parent has a smaller
  index than the node.
\<close>

record CallNodeTable =
  cn_prefix :: "nat option list"
  cn_depth :: "nat list"
  cn_category :: "nat list"

text \<open>Reading a column at a node; \<open>None\<close> is a reference to a node the table does not have.\<close>

definition lookup :: "'b list \<Rightarrow> nat \<Rightarrow> 'b option" where
  "lookup column n = (if n < length column then Some (column ! n) else None)"

text \<open>
  Modelled from the spec: the call-node path of the data model, "ordered sequence of node
  indices from a root to a target node"; the code that walks the table is not part of the
  sources at hand. \<open>None\<close> is the failure the specification asks for on a malformed table
  (a dangling reference, a parent that does not precede its node).
\<close>

function callNodePath :: "nat option list \<Rightarrow> nat \<Rightarrow> nat list option" where
  "callNodePath prefix n =
     (case lookup prefix n of
        None \<Rightarrow> None
      | Some None \<Rightarrow> Some [n]
      | Some (Some p) \<Rightarrow>
          if p < n then map_option (\<lambda>path. path @ [n]) (callNodePath prefix p) else None)"
  by pat_completeness auto
termination
  by (relation "measure (\<lambda>(prefix, n). n)") auto

declare callNodePath.simps [simp del]

section \<open>The interval-timing aggregator\<close>

text \<open>
  A stack timing row: parallel sequences of start times, end times and entity ids, and
  the count of intervals.
\<close>

record ('t, 'e) StackTiming =
  st_start :: "'t list"
  st_end :: "'t list"
  st_stack :: "'e list"
  st_length :: nat

text \<open>
  The state of the aggregator between two samples: the intervals it has closed, as
  (start, end, id), and the interval that is open, as (start, id).
\<close>

record ('t, 'e) aggregation =
  closed :: "('t \<times> 't \<times> 'e) list"
  opened :: "('t \<times> 'e) option"

text \<open>
  Modelled from the spec: section 4.3, whose code is not part of the sources at hand.
  "Start a new interval when the entity id changes from the previous sample (including
  transitions to/from null, where null produces no interval, i.e., a gap), and close the
  current interval at the time of the change. Consecutive samples with identical ids merge
  into a single interval."
\<close>

definition aggregateSample ::
  "('t, 'e) aggregation \<Rightarrow> 't \<times> 'e option \<Rightarrow> ('t, 'e) aggregation" where
  "aggregateSample st sample =
     (case sample of (time, entity) \<Rightarrow>
        (case opened st of
           None \<Rightarrow>
             (case entity of
                None \<Rightarrow> st
              | Some y \<Rightarrow> \<lparr>closed = closed st, opened = Some (time, y)\<rparr>)
         | Some (s, x) \<Rightarrow>
             if entity = Some x then st
             else \<lparr>closed = closed st @ [(s, time, x)],
                   opened = map_option (\<lambda>y. (time, y)) entity\<rparr>))"

text \<open>
  Modelled from the spec: "The last interval's end is the last sample's time (there is no
  implicit trailing interval)."
\<close>

definition aggregateFinish :: "'t \<Rightarrow> ('t, 'e) aggregation \<Rightarrow> ('t \<times> 't \<times> 'e) list" where
  "aggregateFinish lastTime st =
     (case opened st of
        None \<Rightarrow> closed st
      | Some (s, x) \<Rightarrow> closed st @ [(s, lastTime, x)])"

text \<open>Modelled from the spec: the aggregator of section 4.3; no sample gives the empty row.\<close>

definition aggregate :: "('t \<times> 'e option) list \<Rightarrow> ('t \<times> 't \<times> 'e) list" where
  "aggregate samples =
     (if samples = [] then []
      else aggregateFinish (fst (last samples))
             (foldl aggregateSample \<lparr>closed = [], opened = None\<rparr> samples))"

text \<open>
  Modelled from the spec: the timing row of the data model, "four parallel ordered
  sequences of equal length L: start times, end times, entity ids, and the count L
  itself", built from the aggregator's intervals.
\<close>

definition toStackTiming :: "('t \<times> 't \<times> 'e) list \<Rightarrow> ('t, 'e) StackTiming" where
  "toStackTiming intervals =
     \<lparr>st_start = map fst intervals,
      st_end = map (\<lambda>i. fst (snd i)) intervals,
      st_stack = map (\<lambda>i. snd (snd i)) intervals,
      st_length = length intervals\<rparr>"

section \<open>The builders of timing rows\<close>

text \<open>
  Modelled from the spec: section 4.4, whose code is not part of the sources at hand.
  For each depth from 0 to the max depth, the entity id of a sample is "the node at depth
  d on the call-node path of the sample's mapped node, or null if the path is shorter than
  d+1"; the sequence goes to the aggregator, and "rows with zero intervals are omitted".
  The samples are the filtered assignment of section 4.2: a time and a node or null.
\<close>

definition nodeAtDepth :: "nat \<Rightarrow> nat list \<Rightarrow> nat option" where
  "nodeAtDepth d path = (if d < length path then Some (path ! d) else None)"

text \<open>
  Modelled from the spec: section 4.2, "a sample with no captured stack maps to null";
  such a sample has the empty path.
\<close>

definition samplePath :: "nat option list \<Rightarrow> nat option \<Rightarrow> nat list option" where
  "samplePath prefix node = (case node of None \<Rightarrow> Some [] | Some n \<Rightarrow> callNodePath prefix n)"

text \<open>
  Modelled from the spec: section 4.4, the rows for the depths 0 to \<open>maxDepth\<close>, the
  rows without an interval left out. \<open>None\<close> is the failure on a malformed table.
\<close>

definition getStackTimingByDepth ::
  "CallNodeTable \<Rightarrow> ('t \<times> nat option) list \<Rightarrow> int \<Rightarrow> ('t, nat) StackTiming list option" where
  "getStackTimingByDepth callNodeTable samples maxDepth =
     (case those (map (\<lambda>s. samplePath (cn_prefix callNodeTable) (snd s)) samples) of
        None \<Rightarrow> None
      | Some paths \<Rightarrow>
          Some (filter (\<lambda>row. st_length row \<noteq> 0)
                  (map (\<lambda>d. toStackTiming
                              (aggregate (zip (map fst samples) (map (nodeAtDepth d) paths))))
                       [0..<nat (maxDepth + 1)])))"

text \<open>
  Modelled from the spec: section 4.6, whose code is not part of the sources at hand.
  "Per-sample entity id = the category of the sample's leaf frame (post-filtering) rather
  than a tree node. Fed to 4.3 with a single row."
\<close>

definition leafCategory :: "CallNodeTable \<Rightarrow> nat option \<Rightarrow> nat option option" where
  "leafCategory callNodeTable node =
     (case node of
        None \<Rightarrow> Some None
      | Some n \<Rightarrow> map_option Some (lookup (cn_category callNodeTable) n))"

text \<open>
  Modelled from the spec: section 4.6, the single row of the leaf categories.
\<close>

definition getLeafCategoryStackTiming ::
  "CallNodeTable \<Rightarrow> ('t \<times> nat option) list \<Rightarrow> ('t, nat) StackTiming list option" where
  "getLeafCategoryStackTiming callNodeTable samples =
     (case those (map (\<lambda>s. leafCategory callNodeTable (snd s)) samples) of
        None \<Rightarrow> None
      | Some categories \<Rightarrow>
          Some [toStackTiming (aggregate (zip (map fst samples) categories))])"







text \<open>
  Modelled from the spec: section 4.8, whose code is not part of the sources at hand.
  "Scans the filtered per-sample node assignment restricted to the committed range, and
  returns the maximum depth value of any non-null mapped node; returns -1 or a defined
  sentinel when no samples are visible." The committed range is \<open>[start, end)\<close>; \<open>None\<close>
  is the failure on a node the table does not have.
\<close>

definition inRange :: "'t::linorder \<times> 't \<Rightarrow> 't \<Rightarrow> bool" where
  "inRange committed time \<longleftrightarrow> fst committed \<le> time \<and> time < snd committed"

text \<open>
  Modelled from the spec: section 4.8, the non-null nodes of the samples whose time is in
  the committed range.
\<close>

definition visibleNodes :: "'t::linorder \<times> 't \<Rightarrow> ('t \<times> nat option) list \<Rightarrow> nat list" where
  "visibleNodes committed samples =
     concat (map (\<lambda>s. case snd s of None \<Rightarrow> [] | Some n \<Rightarrow> if inRange committed (fst s) then [n] else [])
                 samples)"

text \<open>
  Modelled from the spec: section 4.8, the maximum of the depths of the visible nodes,
  starting from the sentinel -1.
\<close>

definition computeCallNodeMaxDepth ::
  "CallNodeTable \<Rightarrow> 't::linorder \<times> 't \<Rightarrow> ('t \<times> nat option) list \<Rightarrow> int option" where
  "computeCallNodeMaxDepth callNodeTable committed samples =
     (case those (map (lookup (cn_depth callNodeTable)) (visibleNodes committed samples)) of
        None \<Rightarrow> None
      | Some depths \<Rightarrow> Some (foldl (\<lambda>maxDepth d. max maxDepth (int d)) (- 1) depths))"

text \<open>
  Modelled from the spec: section 4.2, whose code is not part of the sources at hand.
  "Hide platform details collapses a node to its nearest ancestor matching the
  implementation filter (native frames folded into the nearest JS ancestor or root)":
  a node that matches the filter stays, any other node goes to its nearest matching
  ancestor, and to the root of its tree when no ancestor matches. \<open>None\<close> is the failure
  on a malformed table.
\<close>

function collapseNode :: "(nat \<Rightarrow> bool) \<Rightarrow> nat option list \<Rightarrow> nat \<Rightarrow> nat option" where
  "collapseNode matches prefix n =
     (case lookup prefix n of
        None \<Rightarrow> None
      | Some parent \<Rightarrow>
          if matches n then Some n
          else (case parent of
                  None \<Rightarrow> Some n
                | Some p \<Rightarrow> if p < n then collapseNode matches prefix p else None))"
  by pat_completeness auto
termination
  by (relation "measure (\<lambda>(matches, prefix, n). n)") auto

declare collapseNode.simps [simp del]

text \<open>
  Modelled from the spec: section 4.2, the collapse of one sample's node; a sample without
  a node stays without one.
\<close>

definition collapseSample :: "(nat \<Rightarrow> bool) \<Rightarrow> nat option list \<Rightarrow> nat option \<Rightarrow> nat option option" where
  "collapseSample matches prefix node =
     (case node of
        None \<Rightarrow> Some None
      | Some n \<Rightarrow> map_option Some (collapseNode matches prefix n))"

text \<open>
  Modelled from the spec: section 4.2, the collapse applied to the whole per-sample node
  assignment.
\<close>

definition hidePlatformDetails ::
  "(nat \<Rightarrow> bool) \<Rightarrow> nat option list \<Rightarrow> nat option list \<Rightarrow> nat option list option" where
  "hidePlatformDetails matches prefix assignment =
     those (map (collapseSample matches prefix) assignment)"

section \<open>Ordered intervals\<close>

text \<open>The (start, end) pairs of a list of intervals.\<close>

definition spans :: "('t \<times> 't \<times> 'e) list \<Rightarrow> ('t \<times> 't) list" where
  "spans intervals = map (\<lambda>i. (fst i, fst (snd i))) intervals"

text \<open>
  The invariant of the aggregator at a sample time \<open>T\<close>: the closed intervals are ordered
  and end by \<open>T\<close>, and the open interval starts after them and by \<open>T\<close>.
\<close>

definition aggregationOrdered :: "('t::linorder, 'e) aggregation \<Rightarrow> 't \<Rightarrow> bool" where
  "aggregationOrdered st T \<longleftrightarrow>
     chained (spans (closed st)) \<and>
     (closed st \<noteq> [] \<longrightarrow> fst (snd (last (closed st))) \<le> T) \<and>
     (\<forall>s x. opened st = Some (s, x) \<longrightarrow>
        s \<le> T \<and> (closed st \<noteq> [] \<longrightarrow> fst (snd (last (closed st))) \<le> s))"

section \<open>Example profile\<close>

text \<open>
  The profile of the specification's example, stacks \<open>A,A,A / B,B,B / C,C,H / D,F,I / E,G\<close>
  sampled at times 0, 1 and 2: the call nodes A to I in the order 0 to 8 (A, B, C, D, E, F,
  G, H, I) and the leaf node of each sample.
\<close>

definition ex_callNodeTable :: CallNodeTable where
  "ex_callNodeTable =
     \<lparr>cn_prefix = [None, Some 0, Some 1, Some 2, Some 3, Some 2, Some 5, Some 1, Some 7],
      cn_depth = [0, 1, 2, 3, 4, 3, 4, 2, 3],
      cn_category = [0, 0, 0, 0, 1, 0, 1, 0, 2]\<rparr>"

definition ex_samples :: "(int \<times> nat option) list" where
  "ex_samples = [(0, Some 4), (1, Some 6), (2, Some 8)]"



definition ex_isJS :: "nat \<Rightarrow> bool" where
  "ex_isJS n \<longleftrightarrow> n \<in> set [2, 3, 7]"

section \<open>The stack chart's trailing interval\<close>

text \<open>
  Modelled from the spec: section 4.3, whose code is not part of the sources at hand, with
  its edge case: "callers must define whether a trailing duration is synthesized". The
  aggregator, closing the interval that is still open after the last sample at the time
  its caller gives.
\<close>

definition aggregateUntil :: "'t \<Rightarrow> ('t \<times> 'e option) list \<Rightarrow> ('t \<times> 't \<times> 'e) list" where
  "aggregateUntil endingTime samples =
     (if samples = [] then []
      else aggregateFinish endingTime
             (foldl aggregateSample \<lparr>closed = [], opened = None\<rparr> samples))"

text \<open>
  Modelled from the spec: sections 4.4 and 4.3, "for the stack chart, the final sample has
  no defined end and is given a minimal synthetic width". The rows of the selector that
  the tests call, \<open>getStackTimingByDepthForStackChart\<close>: the open intervals end at the last
  sample's time plus that width.
\<close>

definition getStackTimingByDepthForStackChart ::
  "CallNodeTable \<Rightarrow> ('t::plus \<times> nat option) list \<Rightarrow> int \<Rightarrow> 't \<Rightarrow>
     ('t, nat) StackTiming list option" where
  "getStackTimingByDepthForStackChart callNodeTable samples maxDepth width =
     (case those (map (\<lambda>s. samplePath (cn_prefix callNodeTable) (snd s)) samples) of
        None \<Rightarrow> None
      | Some paths \<Rightarrow>
          if samples = [] then Some []
          else
            Some (filter (\<lambda>row. st_length row \<noteq> 0)
                    (map (\<lambda>d. toStackTiming
                                (aggregateUntil (fst (last samples) + width)
                                   (zip (map fst samples) (map (nodeAtDepth d) paths))))
                         [0..<nat (maxDepth + 1)])))"

text \<open>
  The profile that the comment of the test "computes unfiltered stack timing by depth"
  draws: the stacks 0 to 8 (1 under 0; 2, 3 and 4 under 1; 5 under 4; 6 under 5; 7 under 6;
  8 under 7) and ten samples at the times 0 to 90, each with its leaf stack.
\<close>

definition ex_testTable :: CallNodeTable where
  "ex_testTable =
     \<lparr>cn_prefix = [None, Some 0, Some 1, Some 1, Some 1, Some 4, Some 5, Some 6, Some 7],
      cn_depth = [0, 1, 2, 2, 2, 3, 4, 5, 6],
      cn_category = [0, 0, 0, 0, 1, 1, 0, 0, 1]\<rparr>"

definition ex_testSamples :: "(int \<times> nat option) list" where
  "ex_testSamples =
     [(0, Some 1), (10, Some 2), (20, Some 2), (30, Some 3), (40, Some 0),
      (50, Some 1), (60, Some 4), (70, Some 5), (80, Some 8), (90, Some 4)]"

text \<open>What that test expects of \<open>getStackTimingByDepthForStackChart\<close>.\<close>

definition ex_testStackTiming :: "(int, nat) StackTiming list" where
  "ex_testStackTiming =
     [\<lparr>st_start = [0], st_end = [91], st_stack = [0], st_length = 1\<rparr>,
      \<lparr>st_start = [0, 50], st_end = [40, 91], st_stack = [1, 1], st_length = 2\<rparr>,
      \<lparr>st_start = [10, 30, 60], st_end = [30, 40, 91], st_stack = [2, 3, 4], st_length = 3\<rparr>,
      \<lparr>st_start = [70], st_end = [90], st_stack = [5], st_length = 1\<rparr>,
      \<lparr>st_start = [80], st_end = [90], st_stack = [6], st_length = 1\<rparr>,
      \<lparr>st_start = [80], st_end = [90], st_stack = [7], st_length = 1\<rparr>,
      \<lparr>st_start = [80], st_end = [90], st_stack = [8], st_length = 1\<rparr>]"

section \<open>The flame graph\<close>

text \<open>
  The call-node forest the flame graph is laid out from: each node with its index in the
  call-node table, its self time (the number of samples whose leaf it is: "each leaf sample
  contributes one unit of self time to its node") and its children.
\<close>

datatype callNodeTree =
  CallNodeTree (tree_node: nat) (tree_selfTime: nat) (tree_children: "callNodeTree list")

text \<open>
  Modelled from the spec: section 4.5, "the aggregate weight (self + descendants)" of a
  subtree.
\<close>

fun totalTime :: "callNodeTree \<Rightarrow> nat" where
  "totalTime (CallNodeTree n self cs) = self + sum_list (map totalTime cs)"

text \<open>
  Modelled from the spec: section 4.5, "process the call-node forest in a fixed order
  (e.g., by total weight descending, ties broken by function name or original order for
  determinism)". The order is a sort of the siblings by a key, at every level; the sort is
  stable, so siblings of one key keep the order in which they are given.
\<close>

fun sortTree :: "(callNodeTree \<Rightarrow> 'k::linorder) \<Rightarrow> callNodeTree \<Rightarrow> callNodeTree" where
  "sortTree key (CallNodeTree n self cs) =
     CallNodeTree n self (map (sortTree key) (sort_key key cs))"

definition sortForest :: "(callNodeTree \<Rightarrow> 'k::linorder) \<Rightarrow> callNodeTree list \<Rightarrow> callNodeTree list" where
  "sortForest key roots = map (sortTree key) (sort_key key roots)"

text \<open>The key of the order "by total weight descending".\<close>

definition byWeightDescending :: "callNodeTree \<Rightarrow> int" where
  "byWeightDescending t = - int (totalTime t)"

text \<open>
  The key of the order by call-node index, the order in which the call nodes first appear
  in the samples.
\<close>

definition byCallNode :: "callNodeTree \<Rightarrow> nat" where
  "byCallNode t = tree_node t"

text \<open>
  Modelled from the spec: section 4.5, whose code is not part of the sources at hand.
  "The layout is depth-first: ... assigning each node a horizontal span proportional to the
  aggregate weight (self + descendants) of its subtree, children laid out contiguously
  within the parent's span in the same order." A span is counted in samples, as in the
  expected output of the tests of \<open>actions.test.js\<close>. An entry is
  (depth, call node, start, end).
\<close>

fun layoutNode :: "nat \<Rightarrow> nat \<Rightarrow> callNodeTree \<Rightarrow> (nat \<times> nat \<times> nat \<times> nat) list"
  and layoutSiblings :: "nat \<Rightarrow> nat \<Rightarrow> callNodeTree list \<Rightarrow> (nat \<times> nat \<times> nat \<times> nat) list" where
  "layoutNode depth start (CallNodeTree n self cs) =
     (depth, n, start, start + totalTime (CallNodeTree n self cs)) #
       layoutSiblings (Suc depth) start cs"
| "layoutSiblings depth start [] = []"
| "layoutSiblings depth start (c # cs) =
     layoutNode depth start c @ layoutSiblings depth (start + totalTime c) cs"

text \<open>
  A row of the flame graph timing as the test reads it: \<open>{callNode, start, end, length}\<close>.
\<close>

record FlameGraphTiming =
  fg_callNode :: "nat list"
  fg_start :: "nat list"
  fg_end :: "nat list"
  fg_length :: nat

text \<open>Modelled from the spec: section 4.5, the row of the entries of one depth.\<close>

definition toFlameGraphTiming :: "(nat \<times> nat \<times> nat \<times> nat) list \<Rightarrow> FlameGraphTiming" where
  "toFlameGraphTiming entries =
     \<lparr>fg_callNode = map (\<lambda>e. fst (snd e)) entries,
      fg_start = map (\<lambda>e. fst (snd (snd e))) entries,
      fg_end = map (\<lambda>e. snd (snd (snd e))) entries,
      fg_length = length entries\<rparr>"

text \<open>The number of depths of a tree.\<close>

fun treeHeight :: "callNodeTree \<Rightarrow> nat" where
  "treeHeight (CallNodeTree n self cs) = Suc (foldr max (map treeHeight cs) 0)"

text \<open>
  Modelled from the spec: section 4.5, the forest sorted by the key and laid out from 0,
  "one row per depth".
\<close>

definition getFlameGraphTiming ::
  "(callNodeTree \<Rightarrow> 'k::linorder) \<Rightarrow> callNodeTree list \<Rightarrow> FlameGraphTiming list" where
  "getFlameGraphTiming key roots =
     map (\<lambda>depth. toFlameGraphTiming
                     (filter (\<lambda>e. fst e = depth) (layoutSiblings 0 0 (sortForest key roots))))
         [0..<foldr max (map treeHeight roots) 0]"

text \<open>
  Siblings laid out contiguously from \<open>start\<close>, in their order: each one's span is as wide
  as its aggregate weight and begins where the span of the one before it ends.
\<close>

fun siblingEntries :: "nat \<Rightarrow> nat \<Rightarrow> callNodeTree list \<Rightarrow> (nat \<times> nat \<times> nat \<times> nat) list" where
  "siblingEntries depth start [] = []"
| "siblingEntries depth start (c # cs) =
     (depth, tree_node c, start, start + totalTime c) #
       siblingEntries depth (start + totalTime c) cs"

text \<open>
  The forest of the test "weights heavier samples to the left": the samples
  \<open>A B C\<close>, \<open>D E\<close>, \<open>D F\<close> and \<open>D F G\<close>, with the call nodes A to G as 0 to 6.
\<close>

definition ex_forest :: "callNodeTree list" where
  "ex_forest =
     [CallNodeTree 0 0 [CallNodeTree 1 0 [CallNodeTree 2 1 []]],
      CallNodeTree 3 0 [CallNodeTree 4 1 [], CallNodeTree 5 1 [CallNodeTree 6 1 []]]]"

text \<open>The same forest with the siblings given in another order.\<close>

definition ex_forestShuffled :: "callNodeTree list" where
  "ex_forestShuffled =
     [CallNodeTree 3 0 [CallNodeTree 5 1 [CallNodeTree 6 1 []], CallNodeTree 4 1 []],
      CallNodeTree 0 0 [CallNodeTree 1 0 [CallNodeTree 2 1 []]]]"

text \<open>
  What that test expects of \<open>getFlameGraphTiming\<close>: \<open>A (0:1) | D (1:4)\<close>,
  \<open>B (0:1) | E (1:2) | F (2:4)\<close> and \<open>C (0:1) | G (2:3)\<close>.
\<close>

definition ex_expectedFlameGraph :: "FlameGraphTiming list" where
  "ex_expectedFlameGraph =
     [\<lparr>fg_callNode = [0, 3], fg_start = [0, 1], fg_end = [1, 4], fg_length = 2\<rparr>,
      \<lparr>fg_callNode = [1, 4, 5], fg_start = [0, 1, 2], fg_end = [1, 2, 4], fg_length = 3\<rparr>,
      \<lparr>fg_callNode = [2, 6], fg_start = [0, 2], fg_end = [1, 3], fg_length = 2\<rparr>]"

section \<open>Bisection: facts\<close>

lemma bisectionRight_le_length: "bisectionRight xs x \<le> length xs"
  by (simp add: bisectionRight_def length_takeWhile_le)

lemma bisectionRight_before:
  assumes "j < bisectionRight xs x"
  shows "xs ! j \<le> x"
proof -
  from assms have j: "j < length (takeWhile (\<lambda>s. s \<le> x) xs)"
    by (simp add: bisectionRight_def)
  then have "takeWhile (\<lambda>s. s \<le> x) xs ! j \<in> set (takeWhile (\<lambda>s. s \<le> x) xs)"
    by (rule nth_mem)
  then have "takeWhile (\<lambda>s. s \<le> x) xs ! j \<le> x"
    by (rule set_takeWhileD [THEN conjunct2])
  with j show ?thesis
    by (simp add: takeWhile_nth)
qed

lemma bisectionRight_at:
  assumes "bisectionRight xs x < length xs"
  shows "x < xs ! bisectionRight xs x"
  using assms nth_length_takeWhile [of "\<lambda>s. s \<le> x" xs]
  by (simp add: bisectionRight_def not_le)

lemma bisectionRight_after:
  assumes "sorted xs" and "bisectionRight xs x \<le> j" and "j < length xs"
  shows "x < xs ! j"
proof -
  from assms have "bisectionRight xs x < length xs" by simp
  then have "x < xs ! bisectionRight xs x" by (rule bisectionRight_at)
  also from assms have "xs ! bisectionRight xs x \<le> xs ! j"
    by (simp add: sorted_nth_mono)
  finally show ?thesis .
qed

lemma bisectionRight_zero:
  assumes "xs = [] \<or> (\<forall>s\<in>set xs. x < s)"
  shows "bisectionRight xs x = 0"
proof (cases xs)
  case Nil
  then show ?thesis by (simp add: bisectionRight_def)
next
  case (Cons a as)
  with assms have "x < a" by auto
  with Cons show ?thesis by (simp add: bisectionRight_def)
qed

lemma js_get_in: "k < length xs \<Longrightarrow> js_get xs (int k) = Some (xs ! k)"
  by (simp add: js_get_def)

lemma indexInRow_less: "indexInRow row t < int (length (mt_start row))"
  using bisectionRight_le_length [of "mt_start row" t] by (simp add: indexInRow_def)

lemma rowCandidate_parallel:
  assumes "parallel row"
  shows "rowCandidate row t =
     (if 0 \<le> indexInRow row t \<and> t \<le> mt_end row ! nat (indexInRow row t)
      then Some (Some (mt_start row ! nat (indexInRow row t)),
                 MarkerIndex (mt_index row ! nat (indexInRow row t)))
      else None)"
proof (cases "0 \<le> indexInRow row t")
  case False
  then show ?thesis by (simp add: rowCandidate_def)
next
  case True
  define k where "k = nat (indexInRow row t)"
  with True have ki: "indexInRow row t = int k" by simp
  with indexInRow_less [of row t] have k: "k < length (mt_start row)" by simp
  with assms have "k < length (mt_end row)" "k < length (mt_index row)"
    by (simp_all add: parallel_def)
  with k show ?thesis
    by (auto simp: rowCandidate_def ki js_get_in js_lt_def read_index_def)
qed

lemma indexInRow_greatest:
  assumes "sorted (mt_start row)" and "j < length (mt_start row)"
  shows "mt_start row ! j \<le> t \<longleftrightarrow> int j \<le> indexInRow row t"
proof
  assume "mt_start row ! j \<le> t"
  then have "\<not> t < mt_start row ! j" by simp
  with bisectionRight_after [OF assms(1) _ assms(2), of t]
  have "\<not> bisectionRight (mt_start row) t \<le> j" by blast
  then have "j < bisectionRight (mt_start row) t" by simp
  then show "int j \<le> indexInRow row t" by (simp add: indexInRow_def)
next
  assume "int j \<le> indexInRow row t"
  then have "j < bisectionRight (mt_start row) t" by (simp add: indexInRow_def)
  then show "mt_start row ! j \<le> t" by (rule bisectionRight_before)
qed

lemma hitLoop_fold:
  assumes "0 < R"
  shows "hitLoop R nt t (int i) c =
     Returns (closestMarkerIndex
       (foldl (\<lambda>c j. probeRow (nt ! j) t c) c (consultedRows R (length nt) i)))"
  using assms
proof (induction R "length nt" i arbitrary: c rule: consultedRows.induct)
  case (1 R i)
  show ?case
  proof (cases "i < length nt")
    case True
    with 1 show ?thesis
      by (subst hitLoop.simps, subst consultedRows.simps) (simp add: of_nat_add [symmetric] del: of_nat_add)
  next
    case False
    then show ?thesis
      by (subst hitLoop.simps, subst consultedRows.simps) simp
  qed
qed

lemma probeRow_skip: "rowCandidate row t = None \<Longrightarrow> probeRow row t c = c"
  by (simp add: probeRow_def)

lemma foldl_skip:
  "\<forall>j\<in>set js. rowCandidate (nt ! j) t = None \<Longrightarrow>
   foldl (\<lambda>c j. probeRow (nt ! j) t c) c js = c"
  by (induction js arbitrary: c) (simp_all add: probeRow_skip)

lemma chained_nth:
  "chained ps \<Longrightarrow> i < length ps \<Longrightarrow>
     fst (ps ! i) \<le> snd (ps ! i) \<and> (Suc i < length ps \<longrightarrow> snd (ps ! i) \<le> fst (ps ! Suc i))"
proof (induction ps arbitrary: i rule: chained.induct)
  case 1
  then show ?case by simp
next
  case (2 s e)
  then show ?case by simp
next
  case (3 s e s' e' rest)
  show ?case
  proof (cases i)
    case 0
    with 3 show ?thesis by simp
  next
    case (Suc j)
    with 3 show ?thesis by simp
  qed
qed

lemma nth_chained:
  "(\<forall>i<length ps. fst (ps ! i) \<le> snd (ps ! i) \<and>
        (Suc i < length ps \<longrightarrow> snd (ps ! i) \<le> fst (ps ! Suc i))) \<Longrightarrow> chained ps"
proof (induction ps rule: chained.induct)
  case 1
  then show ?case by simp
next
  case (2 s e)
  then show ?case by simp
next
  case (3 s e s' e' rest)
  from 3(2) [rule_format, of 0] have a: "s \<le> e" "e \<le> s'" by simp_all
  have "chained ((s', e') # rest)"
  proof (rule 3(1), intro allI impI)
    fix i assume "i < length ((s', e') # rest)"
    with 3(2) [rule_format, of "Suc i"]
    show "fst (((s', e') # rest) ! i) \<le> snd (((s', e') # rest) ! i) \<and>
          (Suc i < length ((s', e') # rest) \<longrightarrow>
             snd (((s', e') # rest) ! i) \<le> fst (((s', e') # rest) ! Suc i))"
      by simp
  qed
  with a show ?case by simp
qed

lemma rowInvariant_nth:
  assumes "rowInvariant row" and "i < length (mt_start row)"
  shows "mt_start row ! i \<le> mt_end row ! i"
    and "Suc i < length (mt_start row) \<Longrightarrow> mt_end row ! i \<le> mt_start row ! Suc i"
  using assms chained_nth [of "zip (mt_start row) (mt_end row)" i]
  by (simp_all add: rowInvariant_def parallel_def)

lemma rowInvariant_sorted:
  assumes "rowInvariant row"
  shows "sorted (mt_start row)"
  unfolding sorted_iff_nth_Suc
proof (intro allI impI)
  fix i assume i: "Suc i < length (mt_start row)"
  then have "mt_start row ! i \<le> mt_end row ! i"
    using rowInvariant_nth(1) [OF assms, of i] by simp
  also have "\<dots> \<le> mt_start row ! Suc i"
    using rowInvariant_nth(2) [OF assms, of i] i by simp
  finally show "mt_start row ! i \<le> mt_start row ! Suc i" .
qed

lemma rowInvariant_end_le_later_start:
  assumes "rowInvariant row" and "j < k" and "k < length (mt_start row)"
  shows "mt_end row ! j \<le> mt_start row ! k"
proof -
  from assms have "mt_end row ! j \<le> mt_start row ! Suc j"
    using rowInvariant_nth(2) [OF assms(1), of j] by simp
  also from assms have "\<dots> \<le> mt_start row ! k"
    using rowInvariant_sorted [OF assms(1)] by (simp add: sorted_nth_mono)
  finally show ?thesis .
qed

lemma covers_le_indexInRow:
  assumes "rowInvariant row" and "covers row k t"
  shows "int k \<le> indexInRow row t"
  using assms indexInRow_greatest [OF rowInvariant_sorted [OF assms(1)], of k t]
  by (simp add: covers_def)

lemma rowCandidate_None_no_cover:
  assumes inv: "rowInvariant row" and none: "rowCandidate row t = None"
  shows "\<not> covers row k t"
proof
  assume c: "covers row k t"
  define n where "n = nat (indexInRow row t)"
  from covers_le_indexInRow [OF inv c] have kn: "k \<le> n" and n0: "indexInRow row t = int n"
    by (simp_all add: n_def)
  from indexInRow_less [of row t] n0 have n: "n < length (mt_start row)" by simp
  from inv have "parallel row" by (simp add: rowInvariant_def)
  from none n0 have lt: "mt_end row ! n < t"
    by (auto simp: rowCandidate_parallel [OF \<open>parallel row\<close>] split: if_splits)
  show False
  proof (cases "k = n")
    case True
    with c lt show False by (auto simp: covers_def)
  next
    case False
    with kn have "k < n" by simp
    from rowInvariant_end_le_later_start [OF inv this n]
    have "mt_end row ! k \<le> mt_start row ! n" .
    also have "\<dots> \<le> mt_end row ! n" by (rule rowInvariant_nth(1) [OF inv n])
    finally show False using c lt by (auto simp: covers_def)
  qed
qed

lemma rowCandidate_Some_cover:
  assumes inv: "rowInvariant row" and some: "rowCandidate row t = Some v"
  shows "\<exists>k. covers row k t \<and> v = (Some (mt_start row ! k), MarkerIndex (mt_index row ! k)) \<and>
            (\<forall>k'. covers row k' t \<longrightarrow> mt_start row ! k' \<le> mt_start row ! k)"
proof -
  define n where "n = nat (indexInRow row t)"
  from inv have par: "parallel row" by (simp add: rowInvariant_def)
  from some have ge: "0 \<le> indexInRow row t" and le: "t \<le> mt_end row ! n"
    and v: "v = (Some (mt_start row ! n), MarkerIndex (mt_index row ! n))"
    by (auto simp: rowCandidate_parallel [OF par] n_def split: if_splits)
  from ge have n0: "indexInRow row t = int n" by (simp add: n_def)
  from indexInRow_less [of row t] n0 have n: "n < length (mt_start row)" by simp
  from n0 have "n < bisectionRight (mt_start row) t" by (simp add: indexInRow_def)
  then have "mt_start row ! n \<le> t" by (rule bisectionRight_before)
  with n le have cov: "covers row n t" by (simp add: covers_def)
  have "mt_start row ! k' \<le> mt_start row ! n" if "covers row k' t" for k'
  proof -
    from covers_le_indexInRow [OF inv that] n0 have "k' \<le> n" by simp
    with n show ?thesis using rowInvariant_sorted [OF inv] by (simp add: sorted_nth_mono)
  qed
  with cov v show ?thesis by blast
qed

lemma probeRows_snoc: "probeRows nt t (js @ [j]) c = probeRow (nt ! j) t (probeRows nt t js c)"
  by (simp add: probeRows_def)

lemma closestAmong_step:
  assumes prev: "closestAmong nt t js c" and inv: "rowInvariant (nt ! j)"
  shows "closestAmong nt t (js @ [j]) (probeRow (nt ! j) t c)"
proof (cases "rowCandidate (nt ! j) t")
  case None
  then have same: "probeRow (nt ! j) t c = c" by (simp add: probeRow_def)
  from rowCandidate_None_no_cover [OF inv None] have no: "\<forall>k. \<not> covers (nt ! j) k t" by blast
  from prev consider
    (init) "c = closest_init" "\<forall>j\<in>set js. \<forall>k. \<not> covers (nt ! j) k t"
    | (found) j0 k0 where "closestAt nt t js j0 k0"
        "c = \<lparr>closestMarkerIndex = MarkerIndex (mt_index (nt ! j0) ! k0),
              closestMarkerStart = Start (mt_start (nt ! j0) ! k0)\<rparr>"
    unfolding closestAmong_def by blast
  then show ?thesis
  proof cases
    case init
    with no have "\<forall>j'\<in>set (js @ [j]). \<forall>k. \<not> covers (nt ! j') k t" by simp
    with init(1) show ?thesis unfolding same closestAmong_def by blast
  next
    case found
    from found(1) no have "closestAt nt t (js @ [j]) j0 k0"
      by (simp add: closestAt_def)
    with found(2) show ?thesis unfolding same closestAmong_def by blast
  qed
next
  case (Some v)
  from rowCandidate_Some_cover [OF inv Some] obtain k where
    cov: "covers (nt ! j) k t" and
    v: "v = (Some (mt_start (nt ! j) ! k), MarkerIndex (mt_index (nt ! j) ! k))" and
    top: "\<forall>k'. covers (nt ! j) k' t \<longrightarrow> mt_start (nt ! j) ! k' \<le> mt_start (nt ! j) ! k"
    by blast
  let ?new = "\<lparr>closestMarkerIndex = MarkerIndex (mt_index (nt ! j) ! k),
               closestMarkerStart = Start (mt_start (nt ! j) ! k)\<rparr>"
  from prev consider
    (init) "c = closest_init" "\<forall>j\<in>set js. \<forall>k. \<not> covers (nt ! j) k t"
    | (found) j0 k0 where "closestAt nt t js j0 k0"
        "c = \<lparr>closestMarkerIndex = MarkerIndex (mt_index (nt ! j0) ! k0),
              closestMarkerStart = Start (mt_start (nt ! j0) ! k0)\<rparr>"
    unfolding closestAmong_def by blast
  then show ?thesis
  proof cases
    case init
    then have new: "probeRow (nt ! j) t c = ?new"
      by (simp add: probeRow_def Some v js_gt_closest_def closest_init_def)
    from cov top init(2) have "closestAt nt t (js @ [j]) j k"
      by (simp add: closestAt_def)
    then show ?thesis unfolding new closestAmong_def by blast
  next
    case found
    show ?thesis
    proof (cases "mt_start (nt ! j0) ! k0 < mt_start (nt ! j) ! k")
      case True
      with found(2) have new: "probeRow (nt ! j) t c = ?new"
        by (simp add: probeRow_def Some v js_gt_closest_def)
      have "mt_start (nt ! j') ! k' \<le> mt_start (nt ! j) ! k"
        if "j' \<in> set js" "covers (nt ! j') k' t" for j' k'
      proof -
        from found(1) that have "mt_start (nt ! j') ! k' \<le> mt_start (nt ! j0) ! k0"
          by (simp add: closestAt_def)
        with True show ?thesis by simp
      qed
      with cov top have "closestAt nt t (js @ [j]) j k"
        by (simp add: closestAt_def)
      then show ?thesis unfolding new closestAmong_def by blast
    next
      case False
      with found(2) have same: "probeRow (nt ! j) t c = c"
        by (simp add: probeRow_def Some v js_gt_closest_def)
      have "mt_start (nt ! j) ! k' \<le> mt_start (nt ! j0) ! k0"
        if "covers (nt ! j) k' t" for k'
      proof -
        from top that have "mt_start (nt ! j) ! k' \<le> mt_start (nt ! j) ! k" by blast
        with False show ?thesis by simp
      qed
      with found(1) have "closestAt nt t (js @ [j]) j0 k0"
        by (simp add: closestAt_def)
      with found(2) show ?thesis unfolding same closestAmong_def by blast
    qed
  qed
qed

lemma closestAmong_probeRows:
  assumes "\<forall>j\<in>set js. rowInvariant (nt ! j)"
  shows "closestAmong nt t js (probeRows nt t js closest_init)"
  using assms
proof (induction js rule: rev_induct)
  case Nil
  show ?case by (simp add: probeRows_def closestAmong_def)
next
  case (snoc j js)
  then have "closestAmong nt t js (probeRows nt t js closest_init)" by simp
  moreover from snoc.prems have "rowInvariant (nt ! j)" by simp
  ultimately show ?case
    unfolding probeRows_snoc by (rule closestAmong_step)
qed

lemma hitTest_probeRows:
  assumes "0 < R"
  shows "hitTest R nt (int r) t =
    Returns (closestMarkerIndex (probeRows nt t (consultedRows R (length nt) r) closest_init))"
  using hitLoop_fold [OF assms] by (simp add: hitTest_def probeRows_def)

lemma consultedRows_set:
  assumes "0 < R"
  shows "set (consultedRows R n r) = {i. i < n \<and> (\<exists>k. i = r + k * R)}"
  using assms
proof (induction R n r rule: consultedRows.induct)
  case (1 R n i)
  show ?case
  proof (cases "i < n")
    case False
    then have "consultedRows R n i = []" by (subst consultedRows.simps) simp
    moreover from False have "{j. j < n \<and> (\<exists>k. j = i + k * R)} = {}" by auto
    ultimately show ?thesis by simp
  next
    case True
    from True 1(2) have eq: "consultedRows R n i = i # consultedRows R n (i + R)"
      by (subst consultedRows.simps) simp
    from True 1 have ih: "set (consultedRows R n (i + R)) = {j. j < n \<and> (\<exists>k. j = i + R + k * R)}"
      by simp
    have "{j. j < n \<and> (\<exists>k. j = i + k * R)} = insert i {j. j < n \<and> (\<exists>k. j = i + R + k * R)}"
    proof (intro set_eqI iffI)
      fix j assume "j \<in> {j. j < n \<and> (\<exists>k. j = i + k * R)}"
      then obtain k where j: "j < n" "j = i + k * R" by blast
      show "j \<in> insert i {j. j < n \<and> (\<exists>k. j = i + R + k * R)}"
      proof (cases k)
        case 0 with j show ?thesis by simp
      next
        case (Suc k') with j show ?thesis by auto
      qed
    next
      fix j assume "j \<in> insert i {j. j < n \<and> (\<exists>k. j = i + R + k * R)}"
      then consider "j = i" | k where "j < n" "j = i + R + k * R" by blast
      then show "j \<in> {j. j < n \<and> (\<exists>k. j = i + k * R)}"
      proof cases
        case 1 with True show ?thesis by (auto intro: exI [of _ 0])
      next
        case 2 then show ?thesis by (auto intro: exI [of _ "Suc k"])
      qed
    qed
    with eq ih show ?thesis by simp
  qed
qed

lemma consultedRows_lane:
  assumes "0 < R" and "r < R"
  shows "set (consultedRows R n r) = {i. i < n \<and> i mod R = r}"
proof -
  have "(\<exists>k. i = r + k * R) \<longleftrightarrow> i mod R = r" for i
  proof
    assume "\<exists>k. i = r + k * R"
    with assms show "i mod R = r" by auto
  next
    assume "i mod R = r"
    then have "i = r + (i div R) * R" by (metis add.commute div_mult_mod_eq)
    then show "\<exists>k. i = r + k * R" ..
  qed
  with consultedRows_set [OF assms(1)] show ?thesis by simp
qed

lemma probeRows_cong:
  assumes "\<forall>i\<in>set js. nt' ! i = nt ! i"
  shows "probeRows nt' t js c = probeRows nt t js c"
  using assms unfolding probeRows_def
  by (induction js arbitrary: c) simp_all

lemmas ex_defs = ex_networkTiming_def ex_rowA_def ex_rowB_def ex_rowC_def

lemmas eval_simps = hitTest_def hitLoop.simps consultedRows.simps closest_init_def probeRow_def
  rowCandidate_def indexInRow_def bisectionRight_def js_get_def js_lt_def js_gt_closest_def
  read_index_def parallel_def

lemma consultedRows_less:
  assumes "i \<in> set (consultedRows R n r)"
  shows "i < n"
proof (cases "0 < R")
  case True
  with assms show ?thesis by (simp add: consultedRows_set)
next
  case False
  then have "consultedRows R n r = []" by (subst consultedRows.simps) simp
  with assms show ?thesis by simp
qed

lemma rowY_mod: "rowY R h (i mod R) = rowY R h i"
  by (simp add: rowY_def)

lemma rowY_add: "rowY R h (i + R) = rowY R h i"
  by (simp add: rowY_def)

lemma drawRow_y: "s \<in> set (drawRow R h w rs re i timing) \<Longrightarrow> stroke_y s = rowY R h i"
  by (auto simp: drawRow_def)

lemma drawCanvas_y:
  assumes "s \<in> set (drawCanvas R h w rs re nt)"
  shows "\<exists>i<length nt. stroke_y s = rowY R h (i mod R)"
proof -
  from assms obtain i where "i < length nt" "s \<in> set (drawRow R h w rs re i (nt ! i))"
    by (auto simp: drawCanvas_def)
  then show ?thesis by (auto simp: drawRow_y rowY_mod)
qed

lemma rowCandidate_shape:
  assumes "rowCandidate row t = Some v"
  shows "\<exists>s m. v = (Some s, m) \<and> m \<noteq> Null"
proof -
  from assms have ge: "0 \<le> indexInRow row t"
    by (auto simp: rowCandidate_def Let_def split: if_splits)
  with indexInRow_less [of row t] obtain s where
    s: "js_get (mt_start row) (indexInRow row t) = Some s"
    by (auto simp: js_get_def)
  have "read_index x \<noteq> Null" for x by (simp add: read_index_def split: option.splits)
  with assms ge s show ?thesis
    by (auto simp: rowCandidate_def Let_def split: if_splits)
qed

lemma candidateKept_step:
  assumes prev: "candidateKept nt t js c"
  shows "candidateKept nt t (js @ [j]) (probeRow (nt ! j) t c)"
proof (cases "rowCandidate (nt ! j) t")
  case None
  then have same: "probeRow (nt ! j) t c = c" by (simp add: probeRow_def)
  from prev consider
    (init) "c = closest_init" "\<forall>j\<in>set js. rowCandidate (nt ! j) t = None"
    | (found) j0 s0 m0 where "latestCandidate nt t js j0 s0 m0"
        "c = \<lparr>closestMarkerIndex = m0, closestMarkerStart = Start s0\<rparr>"
    unfolding candidateKept_def by blast
  then show ?thesis
  proof cases
    case init
    with None have "\<forall>j'\<in>set (js @ [j]). rowCandidate (nt ! j') t = None" by simp
    with init(1) show ?thesis unfolding same candidateKept_def by blast
  next
    case found
    from found(1) None have "latestCandidate nt t (js @ [j]) j0 s0 m0"
      by (simp add: latestCandidate_def)
    with found(2) show ?thesis unfolding same candidateKept_def by blast
  qed
next
  case (Some v)
  from rowCandidate_shape [OF Some] obtain s m where v: "v = (Some s, m)" by blast
  with Some have cand: "rowCandidate (nt ! j) t = Some (Some s, m)" by simp
  let ?new = "\<lparr>closestMarkerIndex = m, closestMarkerStart = Start s\<rparr>"
  from prev consider
    (init) "c = closest_init" "\<forall>j\<in>set js. rowCandidate (nt ! j) t = None"
    | (found) j0 s0 m0 where "latestCandidate nt t js j0 s0 m0"
        "c = \<lparr>closestMarkerIndex = m0, closestMarkerStart = Start s0\<rparr>"
    unfolding candidateKept_def by blast
  then show ?thesis
  proof cases
    case init
    then have new: "probeRow (nt ! j) t c = ?new"
      by (simp add: probeRow_def cand js_gt_closest_def closest_init_def)
    from cand init(2) have "latestCandidate nt t (js @ [j]) j s m"
      by (simp add: latestCandidate_def)
    then show ?thesis unfolding new candidateKept_def by blast
  next
    case found
    show ?thesis
    proof (cases "s0 < s")
      case True
      with found(2) have new: "probeRow (nt ! j) t c = ?new"
        by (simp add: probeRow_def cand js_gt_closest_def)
      have "s' \<le> s" if "j' \<in> set js" "rowCandidate (nt ! j') t = Some (Some s', m')" for j' s' m'
      proof -
        from found(1) that have "s' \<le> s0" unfolding latestCandidate_def by blast
        with True show ?thesis by simp
      qed
      with cand have "latestCandidate nt t (js @ [j]) j s m"
        by (auto simp: latestCandidate_def)
      then show ?thesis unfolding new candidateKept_def by blast
    next
      case False
      with found(2) have same: "probeRow (nt ! j) t c = c"
        by (simp add: probeRow_def cand js_gt_closest_def)
      from False cand have "s' \<le> s0" if "rowCandidate (nt ! j) t = Some (Some s', m')" for s' m'
        using that by simp
      with found(1) have "latestCandidate nt t (js @ [j]) j0 s0 m0"
        by (auto simp: latestCandidate_def)
      with found(2) show ?thesis unfolding same candidateKept_def by blast
    qed
  qed
qed

lemma candidateKept_probeRows: "candidateKept nt t js (probeRows nt t js closest_init)"
proof (induction js rule: rev_induct)
  case Nil
  show ?case by (simp add: probeRows_def candidateKept_def)
next
  case (snoc j js)
  then show ?case unfolding probeRows_snoc by (rule candidateKept_step)
qed

lemma hitTest_candidates:
  assumes R: "0 < R"
  shows "(hitTest R nt (int r) t = Returns Null \<longleftrightarrow>
            (\<forall>i\<in>set (consultedRows R (length nt) r). rowCandidate (nt ! i) t = None)) \<and>
         ((\<exists>i\<in>set (consultedRows R (length nt) r). rowCandidate (nt ! i) t \<noteq> None) \<longrightarrow>
            (\<exists>i\<in>set (consultedRows R (length nt) r). \<exists>s m.
               rowCandidate (nt ! i) t = Some (Some s, m) \<and> m \<noteq> Null \<and>
               hitTest R nt (int r) t = Returns m \<and>
               (\<forall>i'\<in>set (consultedRows R (length nt) r). \<forall>s' m'.
                  rowCandidate (nt ! i') t = Some (Some s', m') \<longrightarrow> s' \<le> s)))"
proof -
  let ?js = "consultedRows R (length nt) r"
  let ?c = "probeRows nt t ?js closest_init"
  have res: "hitTest R nt (int r) t = Returns (closestMarkerIndex ?c)"
    by (rule hitTest_probeRows [OF R])
  from candidateKept_probeRows [of nt t ?js] consider
    (none) "?c = closest_init" "\<forall>j\<in>set ?js. rowCandidate (nt ! j) t = None"
    | (found) j s m where "latestCandidate nt t ?js j s m"
        "?c = \<lparr>closestMarkerIndex = m, closestMarkerStart = Start s\<rparr>"
    unfolding candidateKept_def by blast
  then show ?thesis
  proof cases
    case none
    then have "hitTest R nt (int r) t = Returns Null" by (simp add: res closest_init_def)
    with none(2) show ?thesis by simp
  next
    case found
    then have r: "hitTest R nt (int r) t = Returns m" by (simp add: res)
    from found(1) have j: "j \<in> set ?js" and cand: "rowCandidate (nt ! j) t = Some (Some s, m)"
      and top: "\<forall>j'\<in>set ?js. \<forall>s' m'. rowCandidate (nt ! j') t = Some (Some s', m') \<longrightarrow> s' \<le> s"
      by (simp_all add: latestCandidate_def)
    from rowCandidate_shape [OF cand] have m: "m \<noteq> Null" by simp
    from j cand have "\<not> (\<forall>i\<in>set ?js. rowCandidate (nt ! i) t = None)" by auto
    moreover from j cand m top have "\<exists>i\<in>set ?js. \<exists>s m'.
               rowCandidate (nt ! i) t = Some (Some s, m') \<and> m' \<noteq> Null \<and>
               Returns m = Returns m' \<and>
               (\<forall>i'\<in>set ?js. \<forall>s' m''.
                  rowCandidate (nt ! i') t = Some (Some s', m'') \<longrightarrow> s' \<le> s)"
      by blast
    ultimately show ?thesis unfolding r using m by simp
  qed
qed

lemma hitTest_single_row:
  assumes "rowCandidate row t = Some v"
  shows "hitTest 1 [row] 0 t = Returns (snd v)"
proof -
  from rowCandidate_shape [OF assms] obtain s m where v: "v = (Some s, m)" by blast
  with assms show ?thesis
    by (simp add: hitTest_def hitLoop.simps [of _ _ _ 0] hitLoop.simps [of _ _ _ 1]
        probeRow_def closest_init_def js_gt_closest_def)
qed

text \<open>The two ways the loop does not return: a negative row, and a step of zero.\<close>

lemma hitTest_negative_row:
  assumes "row < 0" and "networkTiming \<noteq> []"
  shows "hitTest R networkTiming row time = Throws TypeError"
  using assms by (simp add: hitTest_def hitLoop.simps)

lemma hitTest_zero_step:
  assumes "0 \<le> row" and "row < int (length networkTiming)"
  shows "hitTest 0 networkTiming row time = Diverges"
  using assms by (simp add: hitTest_def hitLoop.simps)

section \<open>The hit test: claims\<close>

lemma hitTest_single_row_skipped:
  assumes "rowCandidate row t = None"
  shows "hitTest 1 [row] 0 t = Returns Null"
  using assms
  by (simp add: hitTest_def hitLoop.simps [of _ _ _ 0] hitLoop.simps [of _ _ _ 1]
      probeRow_def closest_init_def)

lemma hitTest_single_row_parallel:
  assumes "parallel row"
  shows "hitTest 1 [row] 0 t =
     (if 0 \<le> indexInRow row t \<and> t \<le> mt_end row ! nat (indexInRow row t)
      then Returns (MarkerIndex (mt_index row ! nat (indexInRow row t)))
      else Returns Null)"
proof (cases "rowCandidate row t")
  case None
  with hitTest_single_row_skipped [OF None] show ?thesis
    by (simp add: rowCandidate_parallel [OF assms] split: if_splits)
next
  case (Some v)
  with hitTest_single_row [OF Some] show ?thesis
    by (auto simp: rowCandidate_parallel [OF assms] split: if_splits)
qed

text \<open>
  Claim C2. For a timing row whose start sequence is sorted ascending (and whose sequences
  are parallel), the hit test computes \<open>indexInRow = bisectionRight(row.start, t) - 1\<close>,
  which is the greatest index whose start is at most \<open>t\<close>; the row passes both guards
  exactly when \<open>indexInRow \<ge> 0\<close> and \<open>row.end[indexInRow] \<ge> t\<close>, it then offers the marker at
  that index, and the hit test over that row alone returns it. Over the rows it consults,
  the hit test returns \<open>null\<close> exactly when no row passes the guards; when one does, it
  returns the marker index of a row that passed, the one with the latest start.
\<close>

theorem hitTest_bisection:
  "(sorted (mt_start row) \<and> parallel row \<longrightarrow>
      indexInRow row t = int (bisectionRight (mt_start row) t) - 1 \<and>
      (\<forall>j<length (mt_start row). mt_start row ! j \<le> t \<longleftrightarrow> int j \<le> indexInRow row t) \<and>
      (rowCandidate row t \<noteq> None \<longleftrightarrow>
         0 \<le> indexInRow row t \<and> t \<le> mt_end row ! nat (indexInRow row t)) \<and>
      hitTest 1 [row] 0 t =
        (if 0 \<le> indexInRow row t \<and> t \<le> mt_end row ! nat (indexInRow row t)
         then Returns (MarkerIndex (mt_index row ! nat (indexInRow row t)))
         else Returns Null) \<and>
      (\<forall>v. rowCandidate row t = Some v \<longrightarrow>
         v = (Some (mt_start row ! nat (indexInRow row t)),
              MarkerIndex (mt_index row ! nat (indexInRow row t))) \<and>
         hitTest 1 [row] 0 t = Returns (MarkerIndex (mt_index row ! nat (indexInRow row t))))) \<and>
   (0 < R \<longrightarrow>
      (hitTest R nt (int r) t = Returns Null \<longleftrightarrow>
         (\<forall>i\<in>set (consultedRows R (length nt) r). rowCandidate (nt ! i) t = None)) \<and>
      ((\<exists>i\<in>set (consultedRows R (length nt) r). rowCandidate (nt ! i) t \<noteq> None) \<longrightarrow>
         (\<exists>i\<in>set (consultedRows R (length nt) r). \<exists>s m.
            rowCandidate (nt ! i) t = Some (Some s, m) \<and> m \<noteq> Null \<and>
            hitTest R nt (int r) t = Returns m \<and>
            (\<forall>i'\<in>set (consultedRows R (length nt) r). \<forall>s' m'.
               rowCandidate (nt ! i') t = Some (Some s', m') \<longrightarrow> s' \<le> s))))"
proof (intro conjI impI)
  assume a: "sorted (mt_start row) \<and> parallel row"
  show "indexInRow row t = int (bisectionRight (mt_start row) t) - 1"
    by (simp add: indexInRow_def)
  from a show "\<forall>j<length (mt_start row). mt_start row ! j \<le> t \<longleftrightarrow> int j \<le> indexInRow row t"
    by (simp add: indexInRow_greatest)
  from a show "rowCandidate row t \<noteq> None \<longleftrightarrow>
      0 \<le> indexInRow row t \<and> t \<le> mt_end row ! nat (indexInRow row t)"
    by (simp add: rowCandidate_parallel)
  from a show "hitTest 1 [row] 0 t =
        (if 0 \<le> indexInRow row t \<and> t \<le> mt_end row ! nat (indexInRow row t)
         then Returns (MarkerIndex (mt_index row ! nat (indexInRow row t)))
         else Returns Null)"
    by (intro hitTest_single_row_parallel) simp
  show "\<forall>v. rowCandidate row t = Some v \<longrightarrow>
         v = (Some (mt_start row ! nat (indexInRow row t)),
              MarkerIndex (mt_index row ! nat (indexInRow row t))) \<and>
         hitTest 1 [row] 0 t = Returns (MarkerIndex (mt_index row ! nat (indexInRow row t)))"
  proof (intro allI impI)
    fix v assume v: "rowCandidate row t = Some v"
    with a have eq: "v = (Some (mt_start row ! nat (indexInRow row t)),
              MarkerIndex (mt_index row ! nat (indexInRow row t)))"
      by (auto simp: rowCandidate_parallel split: if_splits)
    with hitTest_single_row [OF v]
    show "v = (Some (mt_start row ! nat (indexInRow row t)),
              MarkerIndex (mt_index row ! nat (indexInRow row t))) \<and>
         hitTest 1 [row] 0 t = Returns (MarkerIndex (mt_index row ! nat (indexInRow row t)))"
      by simp
  qed
next
  assume R: "0 < R"
  from hitTest_candidates [OF R, of nt r t]
  show "hitTest R nt (int r) t = Returns Null \<longleftrightarrow>
         (\<forall>i\<in>set (consultedRows R (length nt) r). rowCandidate (nt ! i) t = None)"
    by (rule conjunct1)
  assume "\<exists>i\<in>set (consultedRows R (length nt) r). rowCandidate (nt ! i) t \<noteq> None"
  with hitTest_candidates [OF R, of nt r t]
  show "\<exists>i\<in>set (consultedRows R (length nt) r). \<exists>s m.
            rowCandidate (nt ! i) t = Some (Some s, m) \<and> m \<noteq> Null \<and>
            hitTest R nt (int r) t = Returns m \<and>
            (\<forall>i'\<in>set (consultedRows R (length nt) r). \<forall>s' m'.
               rowCandidate (nt ! i') t = Some (Some s', m') \<longrightarrow> s' \<le> s)"
    by (rule conjunct2 [THEN mp])
qed

theorem hitTest_bisection_witness:
  "sorted (mt_start ex_rowA) \<and> parallel ex_rowA \<and> indexInRow ex_rowA 15 = 1 \<and>
   rowCandidate ex_rowA 15 = Some (Some 10, MarkerIndex 2) \<and>
   hitTest 1 [ex_rowA] 0 15 = Returns (MarkerIndex 2) \<and>
   rowCandidate ex_rowA 7 = None \<and>
   hitTest 1 [ex_rowA] 0 7 = Returns Null \<and>
   consultedRows 2 (length ex_networkTiming) 0 = [0, 2] \<and>
   rowCandidate (ex_networkTiming ! 0) 7 = None \<and>
   rowCandidate (ex_networkTiming ! 2) 7 = None \<and>
   hitTest 2 ex_networkTiming 0 7 = Returns Null \<and>
   rowCandidate (ex_networkTiming ! 0) 15 = Some (Some 10, MarkerIndex 2) \<and>
   rowCandidate (ex_networkTiming ! 2) 15 = Some (Some 12, MarkerIndex 3) \<and>
   hitTest 2 ex_networkTiming 0 15 = Returns (MarkerIndex 3)"
  using hitTest_bisection [of ex_rowA 15 2 ex_networkTiming 0]
    hitTest_bisection [of ex_rowA 7 2 ex_networkTiming 0]
  by (simp add: ex_defs eval_simps)

text \<open>
  Claim C10. A row whose start sequence is empty, or whose every start exceeds the query
  time, has \<open>bisectionRight = 0\<close> and \<open>indexInRow = -1\<close> and is skipped before any of its
  arrays is read; when a row is read, \<open>indexInRow\<close> lies inside \<open>start\<close>, and inside
  \<open>end\<close> and \<open>index\<close> as well when the sequences are parallel; every visited index lies
  inside \<open>networkTiming\<close>; and rows that are all empty never produce a match.
\<close>

theorem hitTest_in_bounds:
  "(mt_start row = [] \<or> (\<forall>s\<in>set (mt_start row). t < s) \<longrightarrow>
      bisectionRight (mt_start row) t = 0 \<and> indexInRow row t = - 1 \<and>
      rowCandidate row t = None \<and> probeRow row t c = c) \<and>
   (0 \<le> indexInRow row t \<longrightarrow> js_get (mt_start row) (indexInRow row t) \<noteq> None) \<and>
   (parallel row \<and> 0 \<le> indexInRow row t \<longrightarrow>
      js_get (mt_end row) (indexInRow row t) \<noteq> None \<and>
      js_get (mt_index row) (indexInRow row t) \<noteq> None) \<and>
   (\<forall>i\<in>set (consultedRows R (length nt) r). i < length nt) \<and>
   (0 < R \<and> (\<forall>i\<in>set (consultedRows R (length nt) r). mt_start (nt ! i) = []) \<longrightarrow>
      hitTest R nt (int r) t = Returns Null)"
proof (intro conjI impI ballI)
  assume a: "mt_start row = [] \<or> (\<forall>s\<in>set (mt_start row). t < s)"
  then show z: "bisectionRight (mt_start row) t = 0" by (rule bisectionRight_zero)
  then show i: "indexInRow row t = - 1" by (simp add: indexInRow_def)
  then show n: "rowCandidate row t = None" by (simp add: rowCandidate_def)
  then show "probeRow row t c = c" by (rule probeRow_skip)
next
  assume "0 \<le> indexInRow row t"
  with indexInRow_less [of row t] show "js_get (mt_start row) (indexInRow row t) \<noteq> None"
    by (simp add: js_get_def)
next
  assume a: "parallel row \<and> 0 \<le> indexInRow row t"
  with indexInRow_less [of row t] show "js_get (mt_end row) (indexInRow row t) \<noteq> None"
    by (simp add: js_get_def parallel_def)
  from a indexInRow_less [of row t] show "js_get (mt_index row) (indexInRow row t) \<noteq> None"
    by (simp add: js_get_def parallel_def)
next
  fix i assume "i \<in> set (consultedRows R (length nt) r)"
  then show "i < length nt" by (rule consultedRows_less)
next
  assume a: "0 < R \<and> (\<forall>i\<in>set (consultedRows R (length nt) r). mt_start (nt ! i) = [])"
  have "rowCandidate (nt ! i) t = None" if "i \<in> set (consultedRows R (length nt) r)" for i
  proof -
    from a that have "mt_start (nt ! i) = []" by blast
    then have "bisectionRight (mt_start (nt ! i)) t = 0" by (simp add: bisectionRight_zero)
    then show ?thesis by (simp add: rowCandidate_def indexInRow_def)
  qed
  then have "probeRows nt t (consultedRows R (length nt) r) closest_init = closest_init"
    unfolding probeRows_def by (simp add: foldl_skip)
  with a show "hitTest R nt (int r) t = Returns Null"
    by (simp add: hitTest_probeRows closest_init_def)
qed

theorem hitTest_in_bounds_witness:
  "mt_start ex_rowC = [12] \<and> (11::rat) < 12 \<and> indexInRow ex_rowC 11 = - 1 \<and>
   rowCandidate ex_rowC 11 = None \<and>
   parallel ex_rowA \<and> 0 \<le> indexInRow ex_rowA 15 \<and>
   js_get (mt_end ex_rowA) (indexInRow ex_rowA 15) = Some 20 \<and>
   consultedRows 2 (length [ex_emptyRow, ex_rowB, ex_emptyRow]) 0 = [0, 2] \<and>
   mt_start ([ex_emptyRow, ex_rowB, ex_emptyRow] ! 0) = [] \<and>
   mt_start ([ex_emptyRow, ex_rowB, ex_emptyRow] ! 2) = [] \<and>
   hitTest 2 [ex_emptyRow, ex_rowB, ex_emptyRow] 0 15 = Returns Null"
  using hitTest_in_bounds [of ex_rowC 11 closest_init 2 "[ex_emptyRow, ex_rowB, ex_emptyRow]" 0]
    hitTest_in_bounds [of ex_rowA 15 closest_init 2 "[ex_emptyRow, ex_rowB, ex_emptyRow]" 0]
  by (simp add: ex_defs ex_emptyRow_def eval_simps)

text \<open>
  Claim C9. When the consulted rows satisfy the row invariant, the hit test returns
  \<open>null\<close> exactly when no consulted row has a marker whose interval contains the query
  time; otherwise it returns the index of a marker that contains the time and whose start
  is the greatest among all such markers of the consulted rows.
\<close>

theorem hitTest_closest:
  assumes "0 < R" and "\<forall>i\<in>set (consultedRows R (length nt) r). rowInvariant (nt ! i)"
  shows "(hitTest R nt (int r) t = Returns Null \<longleftrightarrow>
            \<not> (\<exists>i\<in>set (consultedRows R (length nt) r). \<exists>k. covers (nt ! i) k t)) \<and>
         (\<forall>m. hitTest R nt (int r) t = Returns (MarkerIndex m) \<longrightarrow>
            (\<exists>i\<in>set (consultedRows R (length nt) r). \<exists>k.
               covers (nt ! i) k t \<and> mt_index (nt ! i) ! k = m \<and>
               (\<forall>i'\<in>set (consultedRows R (length nt) r). \<forall>k'. covers (nt ! i') k' t \<longrightarrow>
                  mt_start (nt ! i') ! k' \<le> mt_start (nt ! i) ! k))) \<and>
         (hitTest R nt (int r) t = Returns Null \<or>
          (\<exists>m. hitTest R nt (int r) t = Returns (MarkerIndex m)))"
proof -
  let ?js = "consultedRows R (length nt) r"
  let ?c = "probeRows nt t ?js closest_init"
  have res: "hitTest R nt (int r) t = Returns (closestMarkerIndex ?c)"
    by (rule hitTest_probeRows [OF assms(1)])
  from closestAmong_probeRows [OF assms(2)] have "closestAmong nt t ?js ?c" .
  then consider
    (none) "?c = closest_init" "\<forall>j\<in>set ?js. \<forall>k. \<not> covers (nt ! j) k t"
    | (found) j k where "closestAt nt t ?js j k"
        "?c = \<lparr>closestMarkerIndex = MarkerIndex (mt_index (nt ! j) ! k),
               closestMarkerStart = Start (mt_start (nt ! j) ! k)\<rparr>"
    unfolding closestAmong_def by blast
  then show ?thesis
  proof cases
    case none
    then have "hitTest R nt (int r) t = Returns Null"
      by (simp add: res closest_init_def)
    with none(2) show ?thesis by simp
  next
    case found
    then have r: "hitTest R nt (int r) t = Returns (MarkerIndex (mt_index (nt ! j) ! k))"
      by (simp add: res)
    from found(1) have "\<exists>i\<in>set ?js. \<exists>k'. covers (nt ! i) k' t"
      unfolding closestAt_def by blast
    moreover from found(1) have "\<exists>i\<in>set ?js. \<exists>k'.
               covers (nt ! i) k' t \<and> mt_index (nt ! i) ! k' = mt_index (nt ! j) ! k \<and>
               (\<forall>i'\<in>set ?js. \<forall>k''. covers (nt ! i') k'' t \<longrightarrow>
                  mt_start (nt ! i') ! k'' \<le> mt_start (nt ! i) ! k')"
      unfolding closestAt_def by blast
    ultimately show ?thesis unfolding r by simp
  qed
qed

theorem hitTest_closest_witness:
  "consultedRows 2 (length ex_networkTiming) 0 = [0, 2] \<and>
   rowInvariant (ex_networkTiming ! 0) \<and> rowInvariant (ex_networkTiming ! 2) \<and>
   covers (ex_networkTiming ! 0) 1 15 \<and> covers (ex_networkTiming ! 2) 0 15 \<and>
   hitTest 2 ex_networkTiming 0 15 = Returns (MarkerIndex 3) \<and>
   hitTest 2 ex_networkTiming 0 7 = Returns Null"
  using hitTest_closest [of 2 ex_networkTiming 0 15] hitTest_closest [of 2 ex_networkTiming 0 7]
  by (simp add: ex_defs eval_simps rowInvariant_def covers_def)

text \<open>
  Claim C6. With \<open>R = TRACK_NETWORK_ROW_REPEAT\<close> lanes, every stroke of logical row \<open>i\<close> is
  drawn at the vertical position of lane \<open>i mod R\<close>, so rows \<open>i\<close> and \<open>i + R\<close> share a
  position while distinct lanes have distinct ones; the hit test started in row \<open>r\<close> visits
  exactly the rows \<open>r, r + R, r + 2R, \<dots>\<close> below the row count (for \<open>r < R\<close>, the rows drawn
  in lane \<open>r\<close>), and its result depends on no other row.
\<close>

theorem lanes_cyclic:
  "0 < R \<longrightarrow>
     (\<forall>i<length nt. \<forall>s\<in>set (drawRow R h w rs re i (nt ! i)). stroke_y s = rowY R h (i mod R)) \<and>
     (\<forall>s\<in>set (drawCanvas R h w rs re nt). \<exists>i<length nt. stroke_y s = rowY R h (i mod R)) \<and>
     rowY R h (i + R) = rowY R h i \<and>
     (h \<noteq> 0 \<and> a < R \<and> b < R \<and> a \<noteq> b \<longrightarrow> rowY R h a \<noteq> rowY R h b) \<and>
     set (consultedRows R (length nt) r) = {i. i < length nt \<and> (\<exists>k. i = r + k * R)} \<and>
     (r < R \<longrightarrow> set (consultedRows R (length nt) r) = {i. i < length nt \<and> i mod R = r}) \<and>
     hitTest R nt (int r) t =
       Returns (closestMarkerIndex (probeRows nt t (consultedRows R (length nt) r) closest_init)) \<and>
     (length nt' = length nt \<and> (\<forall>i\<in>set (consultedRows R (length nt) r). nt' ! i = nt ! i) \<longrightarrow>
        hitTest R nt' (int r) t = hitTest R nt (int r) t)"
proof (intro impI conjI allI ballI)
  assume R: "0 < R"
  show "set (consultedRows R (length nt) r) = {i. i < length nt \<and> (\<exists>k. i = r + k * R)}"
    by (rule consultedRows_set [OF R])
  show "set (consultedRows R (length nt) r) = {i. i < length nt \<and> i mod R = r}" if "r < R"
    by (rule consultedRows_lane [OF R that])
  show "hitTest R nt (int r) t =
       Returns (closestMarkerIndex (probeRows nt t (consultedRows R (length nt) r) closest_init))"
    by (rule hitTest_probeRows [OF R])
  show "rowY R h (i + R) = rowY R h i" by (rule rowY_add)
  show "rowY R h a \<noteq> rowY R h b" if "h \<noteq> 0 \<and> a < R \<and> b < R \<and> a \<noteq> b"
    using that R by (simp add: rowY_def)
  show "hitTest R nt' (int r) t = hitTest R nt (int r) t"
    if "length nt' = length nt \<and> (\<forall>i\<in>set (consultedRows R (length nt) r). nt' ! i = nt ! i)"
  proof -
    from that have "probeRows nt' t (consultedRows R (length nt) r) closest_init =
        probeRows nt t (consultedRows R (length nt) r) closest_init"
      by (intro probeRows_cong) simp
    with that show ?thesis by (simp add: hitTest_probeRows [OF R])
  qed
next
  fix j s assume "s \<in> set (drawRow R h w rs re j (nt ! j))"
  then show "stroke_y s = rowY R h (j mod R)" by (simp add: drawRow_y rowY_mod)
next
  fix s assume "s \<in> set (drawCanvas R h w rs re nt)"
  then show "\<exists>i<length nt. stroke_y s = rowY R h (i mod R)" by (rule drawCanvas_y)
qed

theorem lanes_cyclic_witness:
  "(0::nat) < 2 \<and>
   drawCanvas 2 10 100 0 10 [ex_ratRow, ex_ratRow, ex_ratRow] =
     [\<lparr>stroke_from = Some 10, stroke_to = Some 20, stroke_y = Some 5\<rparr>,
      \<lparr>stroke_from = Some 40, stroke_to = Some 60, stroke_y = Some 5\<rparr>,
      \<lparr>stroke_from = Some 10, stroke_to = Some 20, stroke_y = Some 15\<rparr>,
      \<lparr>stroke_from = Some 40, stroke_to = Some 60, stroke_y = Some 15\<rparr>,
      \<lparr>stroke_from = Some 10, stroke_to = Some 20, stroke_y = Some 5\<rparr>,
      \<lparr>stroke_from = Some 40, stroke_to = Some 60, stroke_y = Some 5\<rparr>] \<and>
   rowY 2 (10::rat) (0 + 2) = rowY 2 10 0 \<and> rowY 2 (10::rat) 0 \<noteq> rowY 2 10 1 \<and>
   set (consultedRows 2 (length ex_networkTiming) 0) = {0, 2} \<and>
   length ex_otherTiming = length ex_networkTiming \<and>
   ex_otherTiming ! 0 = ex_networkTiming ! 0 \<and> ex_otherTiming ! 2 = ex_networkTiming ! 2 \<and>
   hitTest 2 ex_otherTiming 0 15 = hitTest 2 ex_networkTiming 0 15"
proof -
  have draw: "drawCanvas 2 10 100 0 10 [ex_ratRow, ex_ratRow, ex_ratRow] =
     [\<lparr>stroke_from = Some 10, stroke_to = Some 20, stroke_y = Some 5\<rparr>,
      \<lparr>stroke_from = Some 40, stroke_to = Some 60, stroke_y = Some 5\<rparr>,
      \<lparr>stroke_from = Some 10, stroke_to = Some 20, stroke_y = Some 15\<rparr>,
      \<lparr>stroke_from = Some 40, stroke_to = Some 60, stroke_y = Some 15\<rparr>,
      \<lparr>stroke_from = Some 10, stroke_to = Some 20, stroke_y = Some 5\<rparr>,
      \<lparr>stroke_from = Some 40, stroke_to = Some 60, stroke_y = Some 5\<rparr>]"
    by (simp add: ex_ratRow_def drawCanvas_def drawRow_def rowY_def toCanvasX_def js_get_def upt_rec)
  have rows: "consultedRows 2 (length ex_networkTiming) 0 = [0, 2]"
    by (simp add: ex_networkTiming_def consultedRows.simps)
  have same: "length ex_otherTiming = length ex_networkTiming \<and>
      (\<forall>i\<in>set (consultedRows 2 (length ex_networkTiming) 0). ex_otherTiming ! i = ex_networkTiming ! i)"
    unfolding rows by (simp add: ex_otherTiming_def ex_networkTiming_def)
  have R: "(0::nat) < 2" by simp
  from lanes_cyclic [of 2 ex_networkTiming "10::rat" 100 0 10 0 0 1 0 15 ex_otherTiming] R same
  have "rowY 2 (10::rat) (0 + 2) = rowY 2 10 0 \<and> rowY 2 (10::rat) 0 \<noteq> rowY 2 10 1 \<and>
     hitTest 2 ex_otherTiming 0 15 = hitTest 2 ex_networkTiming 0 15"
    by simp
  with draw rows same show ?thesis by simp
qed

section \<open>Local tracks: an unhandled type\<close>


lemma renderTrack_returns: "\<exists>v. renderTrack localTrack = Returns v"
  by (simp add: renderTrack_def)








section \<open>The aggregator: facts\<close>

lemma chained_snoc:
  "chained (ps @ [(s, e)]) \<longleftrightarrow> chained ps \<and> s \<le> e \<and> (ps \<noteq> [] \<longrightarrow> snd (last ps) \<le> s)"
  by (induction ps rule: chained.induct) auto

lemma spans_snoc: "spans (ivs @ [(s, e, x)]) = spans ivs @ [(s, e)]"
  by (simp add: spans_def)

lemma last_spans: "ivs \<noteq> [] \<Longrightarrow> snd (last (spans ivs)) = fst (snd (last ivs))"
  by (simp add: spans_def last_map)

lemma spans_Nil_iff: "spans ivs = [] \<longleftrightarrow> ivs = []"
  by (simp add: spans_def)

lemma aggregationOrdered_init: "aggregationOrdered \<lparr>closed = [], opened = None\<rparr> T"
  by (simp add: aggregationOrdered_def spans_def)

lemma aggregationOrdered_mono:
  "aggregationOrdered st T \<Longrightarrow> T \<le> T' \<Longrightarrow> aggregationOrdered st T'"
  unfolding aggregationOrdered_def by (meson order_trans)

lemma aggregationOrdered_step:
  assumes inv: "aggregationOrdered st T" and le: "T \<le> t"
  shows "aggregationOrdered (aggregateSample st (t, e)) t"
proof (cases "opened st")
  case None
  show ?thesis
  proof (cases e)
    case eNone: None
    with None have "aggregateSample st (t, e) = st" by (simp add: aggregateSample_def)
    with inv le show ?thesis by (simp add: aggregationOrdered_mono)
  next
    case (Some y)
    with None have "aggregateSample st (t, e) = \<lparr>closed = closed st, opened = Some (t, y)\<rparr>"
      by (simp add: aggregateSample_def)
    moreover from inv le have "closed st \<noteq> [] \<longrightarrow> fst (snd (last (closed st))) \<le> t"
      unfolding aggregationOrdered_def by (meson order_trans)
    ultimately show ?thesis using inv by (simp add: aggregationOrdered_def)
  qed
next
  case (Some p)
  obtain s x where p: "p = (s, x)" by (cases p)
  from inv Some p have s: "s \<le> T" and prev: "closed st \<noteq> [] \<longrightarrow> fst (snd (last (closed st))) \<le> s"
    and ch: "chained (spans (closed st))"
    by (simp_all add: aggregationOrdered_def)
  show ?thesis
  proof (cases "e = Some x")
    case True
    with Some p have "aggregateSample st (t, e) = st" by (simp add: aggregateSample_def)
    with inv le show ?thesis by (simp add: aggregationOrdered_mono)
  next
    case False
    with Some p have eq: "aggregateSample st (t, e) =
        \<lparr>closed = closed st @ [(s, t, x)], opened = map_option (\<lambda>y. (t, y)) e\<rparr>"
      by (simp add: aggregateSample_def)
    from s le have "s \<le> t" by simp
    with ch prev have "chained (spans (closed st @ [(s, t, x)]))"
      by (simp add: spans_snoc chained_snoc last_spans spans_Nil_iff)
    then show ?thesis unfolding eq by (auto simp: aggregationOrdered_def)
  qed
qed

lemma aggregationOrdered_foldl:
  assumes "sorted (map fst samples)" and "\<forall>t\<in>set (map fst samples). t \<le> T"
  shows "aggregationOrdered (foldl aggregateSample \<lparr>closed = [], opened = None\<rparr> samples) T"
  using assms
proof (induction samples arbitrary: T rule: rev_induct)
  case Nil
  show ?case by (simp add: aggregationOrdered_init)
next
  case (snoc a samples)
  obtain t e where a: "a = (t, e)" by (cases a)
  from snoc.prems(1) a have srt: "sorted (map fst samples)" and le: "\<forall>u\<in>set (map fst samples). u \<le> t"
    by (simp_all add: sorted_append)
  from snoc.IH [OF srt le]
  have "aggregationOrdered (foldl aggregateSample \<lparr>closed = [], opened = None\<rparr> samples) t" .
  then have "aggregationOrdered
      (aggregateSample (foldl aggregateSample \<lparr>closed = [], opened = None\<rparr> samples) (t, e)) t"
    by (rule aggregationOrdered_step) simp
  moreover from snoc.prems(2) a have "t \<le> T" by simp
  ultimately show ?case by (simp add: a aggregationOrdered_mono)
qed

lemma sorted_le_last:
  assumes "sorted xs" and "xs \<noteq> []"
  shows "\<forall>x\<in>set xs. x \<le> last xs"
proof -
  from assms(2) have "xs = butlast xs @ [last xs]" by simp
  with assms(1) have "sorted (butlast xs @ [last xs])" by simp
  then have "\<forall>x\<in>set (butlast xs). x \<le> last xs" by (simp add: sorted_append)
  moreover from assms(2) have "set xs = insert (last xs) (set (butlast xs))"
    by (metis \<open>xs = butlast xs @ [last xs]\<close> Un_insert_right list.set(1) list.simps(15) set_append sup_bot.right_neutral)
  ultimately show ?thesis by simp
qed


lemma chained_nth_spans:
  assumes "chained (spans ivs)" and "i < length ivs"
  shows "map fst ivs ! i \<le> map (\<lambda>i. fst (snd i)) ivs ! i"
    and "Suc i < length ivs \<Longrightarrow> map (\<lambda>i. fst (snd i)) ivs ! i \<le> map fst ivs ! Suc i"
  using chained_nth [OF assms(1), of i] assms(2) by (simp_all add: spans_def)


lemma those_length: "those xs = Some ys \<Longrightarrow> length ys = length xs"
  by (induction xs arbitrary: ys) (auto split: option.splits)



lemma zipped_times: "length ids = length samples \<Longrightarrow> map fst (zip (map fst samples) ids) = map fst samples"
  by simp





lemma aggregateSample_opens:
  "\<exists>s. opened (aggregateSample st (t, Some x)) = Some (s, x)"
  by (cases "opened st") (auto simp: aggregateSample_def)

lemma aggregateSample_closes:
  assumes "opened st = Some (s, x)"
  shows "aggregateSample st (t, None) = \<lparr>closed = closed st @ [(s, t, x)], opened = None\<rparr>"
  using assms by (simp add: aggregateSample_def)

lemma aggregate_snoc:
  "aggregate (samples @ [(t, e)]) =
     aggregateFinish t (aggregateSample (foldl aggregateSample \<lparr>closed = [], opened = None\<rparr> samples) (t, e))"
  by (simp add: aggregate_def)

lemma aggregate_last_entity:
  "aggregate (samples @ [(t, Some x)]) \<noteq> [] \<and>
   fst (snd (last (aggregate (samples @ [(t, Some x)])))) = t"
proof -
  let ?st = "foldl aggregateSample \<lparr>closed = [], opened = None\<rparr> samples"
  from aggregateSample_opens [of ?st t x] obtain s where
    "opened (aggregateSample ?st (t, Some x)) = Some (s, x)" ..
  then show ?thesis by (simp add: aggregate_snoc aggregateFinish_def)
qed

lemma aggregate_last_gap:
  "aggregate (samples @ [(t', Some x), (t, None)]) \<noteq> [] \<and>
   fst (snd (last (aggregate (samples @ [(t', Some x), (t, None)])))) = t"
proof -
  let ?st = "foldl aggregateSample \<lparr>closed = [], opened = None\<rparr> samples"
  from aggregateSample_opens [of ?st t' x] obtain s where
    o: "opened (aggregateSample ?st (t', Some x)) = Some (s, x)" ..
  have "aggregate (samples @ [(t', Some x), (t, None)]) =
      aggregateFinish t (aggregateSample (aggregateSample ?st (t', Some x)) (t, None))"
    by (simp add: aggregate_def)
  also have "\<dots> = closed (aggregateSample ?st (t', Some x)) @ [(s, t, x)]"
    by (simp add: aggregateSample_closes [OF o] aggregateFinish_def)
  finally show ?thesis by simp
qed

lemma aggregate_last_end_general:
  assumes "samples \<noteq> []"
    and "snd (last samples) \<noteq> None \<or>
         (butlast samples \<noteq> [] \<and> snd (last (butlast samples)) \<noteq> None)"
  shows "aggregate samples \<noteq> [] \<and> fst (snd (last (aggregate samples))) = fst (last samples)"
proof -
  from assms(1) obtain xs t e where s: "samples = xs @ [(t, e)]"
    by (cases samples rule: rev_cases) auto
  show ?thesis
  proof (cases e)
    case (Some x)
    with s aggregate_last_entity [of xs t x] show ?thesis by simp
  next
    case None
    with assms(2) s have xs: "xs \<noteq> []" and "snd (last xs) \<noteq> None" by simp_all
    then obtain ys t' x where "xs = ys @ [(t', Some x)]"
      by (cases xs rule: rev_cases) auto
    with s None have "samples = ys @ [(t', Some x), (t, None)]" by simp
    with aggregate_last_gap [of ys t' x t] show ?thesis by simp
  qed
qed

lemma those_map_lookup:
  "\<forall>n\<in>set ns. n < length column \<Longrightarrow>
   those (map (lookup column) ns) = Some (map (\<lambda>n. column ! n) ns)"
  by (induction ns) (simp_all add: lookup_def)

lemma foldl_max_depth:
  "foldl (\<lambda>maxDepth d. max maxDepth (int d)) a ds = Max (insert a (int ` set ds))"
proof (induction ds arbitrary: a)
  case Nil
  show ?case by simp
next
  case (Cons d ds)
  have "Max (insert (max a (int d)) (int ` set ds)) = Max (insert a (insert (int d) (int ` set ds)))"
  proof (cases "ds = []")
    case True
    then show ?thesis by simp
  next
    case False
    then have ne: "int ` set ds \<noteq> {}" by simp
    have fin: "finite (int ` set ds)" by simp
    show ?thesis
      by (simp add: Max_insert [OF fin ne] Max_insert [of "insert (int d) (int ` set ds)"] max.assoc)
  qed
  with Cons show ?case by simp
qed

lemma foldl_max_depth_sentinel:
  "foldl (\<lambda>maxDepth d. max maxDepth (int d)) (- 1) ds =
     (if ds = [] then - 1 else int (Max (set ds)))"
proof (cases "ds = []")
  case True
  then show ?thesis by simp
next
  case False
  then have ne: "set ds \<noteq> {}" by simp
  have "Max (int ` set ds) = int (Max (set ds))"
    by (rule mono_Max_commute [symmetric]) (simp_all add: mono_def False)
  moreover have "0 \<le> int (Max (set ds))" by simp
  ultimately have "Max (insert (- 1) (int ` set ds)) = int (Max (set ds))"
    using ne by (simp add: Max_insert)
  with False show ?thesis by (simp add: foldl_max_depth)
qed

lemma collapseNode_fixed:
  "collapseNode matches prefix n = Some r \<Longrightarrow> collapseNode matches prefix r = Some r"
proof (induction matches prefix n rule: collapseNode.induct)
  case (1 matches prefix n)
  from "1.prems" obtain parent where l: "lookup prefix n = Some parent"
    by (subst (asm) collapseNode.simps) (auto split: option.splits)
  show ?case
  proof (cases "matches n")
    case True
    with l "1.prems" have "r = n" by (subst (asm) collapseNode.simps) simp
    with l True show ?thesis by (subst collapseNode.simps) simp
  next
    case False
    show ?thesis
    proof (cases parent)
      case None
      with l False "1.prems" have "r = n" by (subst (asm) collapseNode.simps) simp
      with l None show ?thesis by (subst collapseNode.simps) simp
    next
      case (Some p)
      with l False "1.prems" have "p < n" and "collapseNode matches prefix p = Some r"
        by (subst (asm) collapseNode.simps, simp split: if_splits)+
      with "1.IH" [OF l False Some] show ?thesis by simp
    qed
  qed
qed

lemma collapseSample_fixed:
  "collapseSample matches prefix node = Some node' \<Longrightarrow>
   collapseSample matches prefix node' = Some node'"
  by (cases node) (auto simp: collapseSample_def dest: collapseNode_fixed)

lemma those_map_fixed:
  "those (map f xs) = Some ys \<Longrightarrow> (\<And>x y. f x = Some y \<Longrightarrow> f y = Some y) \<Longrightarrow>
   those (map f ys) = Some ys"
proof (induction xs arbitrary: ys)
  case Nil
  then show ?case by simp
next
  case (Cons x xs)
  from Cons.prems(1) obtain y ys' where "f x = Some y" "those (map f xs) = Some ys'" "ys = y # ys'"
    by (auto split: option.splits)
  with Cons.IH [OF this(2) Cons.prems(2)] Cons.prems(2) [OF this(1)] show ?case by simp
qed

lemma collapseNode_defined:
  assumes "\<forall>n<length prefix. \<forall>p. prefix ! n = Some p \<longrightarrow> p < n" and "n < length prefix"
  shows "collapseNode matches prefix n \<noteq> None"
  using assms(2)
proof (induction n rule: less_induct)
  case (less n)
  show ?case
  proof (cases "prefix ! n")
    case None
    with less.prems show ?thesis by (subst collapseNode.simps) (simp add: lookup_def)
  next
    case (Some p)
    with assms(1) less.prems have "p < n" by blast
    with less.prems have "p < length prefix" by simp
    from less.IH [OF \<open>p < n\<close> this] Some less.prems \<open>p < n\<close> show ?thesis
      by (subst collapseNode.simps) (simp add: lookup_def)
  qed
qed

lemma those_map_defined:
  "(\<forall>x\<in>set xs. f x \<noteq> None) \<Longrightarrow> those (map f xs) \<noteq> None"
  by (induction xs) (auto split: option.splits)

lemmas agg_eval = aggregate_def aggregateSample_def aggregateFinish_def toStackTiming_def
  nodeAtDepth_def samplePath_def callNodePath.simps lookup_def


lemma ex_leafTiming_eval:
  "getLeafCategoryStackTiming ex_callNodeTable ex_samples =
     Some [\<lparr>st_start = [0, 2], st_end = [2, 2], st_stack = [1, 2], st_length = 2\<rparr>]"
  by (simp add: getLeafCategoryStackTiming_def leafCategory_def ex_callNodeTable_def ex_samples_def
      agg_eval)


lemma aggregate_aggregateUntil:
  "aggregate samples = aggregateUntil (fst (last samples)) samples"
  by (simp add: aggregate_def aggregateUntil_def)

lemma aggregateUntil_last_entity:
  "aggregateUntil endingTime (samples @ [(t, Some x)]) \<noteq> [] \<and>
   fst (snd (last (aggregateUntil endingTime (samples @ [(t, Some x)])))) = endingTime"
proof -
  let ?st = "foldl aggregateSample \<lparr>closed = [], opened = None\<rparr> samples"
  from aggregateSample_opens [of ?st t x] obtain s where
    "opened (aggregateSample ?st (t, Some x)) = Some (s, x)" ..
  then show ?thesis by (simp add: aggregateUntil_def aggregateFinish_def)
qed

lemma aggregateUntil_last_end:
  assumes "samples \<noteq> []" and "snd (last samples) \<noteq> None"
  shows "aggregateUntil endingTime samples \<noteq> [] \<and>
         fst (snd (last (aggregateUntil endingTime samples))) = endingTime"
proof -
  from assms(1) obtain xs t e where s: "samples = xs @ [(t, e)]"
    by (cases samples rule: rev_cases) auto
  with assms(2) obtain x where "e = Some x" by auto
  with s aggregateUntil_last_entity [of endingTime xs t x] show ?thesis by simp
qed

lemma chained_aggregateUntil:
  assumes "sorted (map fst samples)" and "samples \<noteq> [] \<longrightarrow> fst (last samples) \<le> endingTime"
  shows "chained (spans (aggregateUntil endingTime samples))"
proof (cases "samples = []")
  case True
  then show ?thesis by (simp add: aggregateUntil_def spans_def)
next
  case False
  let ?st = "foldl aggregateSample \<lparr>closed = [], opened = None\<rparr> samples"
  from False have "map fst samples \<noteq> []" by simp
  from sorted_le_last [OF assms(1) this] False
  have "\<forall>t\<in>set (map fst samples). t \<le> fst (last samples)" by (simp add: last_map)
  with assms(2) False have "\<forall>t\<in>set (map fst samples). t \<le> endingTime" by auto
  with assms(1) have inv: "aggregationOrdered ?st endingTime" by (rule aggregationOrdered_foldl)
  show ?thesis
  proof (cases "opened ?st")
    case None
    with False inv show ?thesis
      by (simp add: aggregateUntil_def aggregateFinish_def aggregationOrdered_def)
  next
    case (Some p)
    obtain s x where "p = (s, x)" by (cases p)
    with Some False inv show ?thesis
      by (simp add: aggregateUntil_def aggregateFinish_def aggregationOrdered_def
          spans_snoc chained_snoc last_spans spans_Nil_iff)
  qed
qed

lemma stackChart_rows_ordered:
  fixes samples :: "('t::linordered_ab_group_add \<times> nat option) list"
  assumes "sorted (map fst samples)" and "0 \<le> width"
    and "getStackTimingByDepthForStackChart callNodeTable samples maxDepth width = Some rows"
    and "row \<in> set rows" and "i < length (st_start row)"
  shows "length (st_end row) = length (st_start row) \<and> st_start row ! i \<le> st_end row ! i \<and>
         (Suc i < length (st_start row) \<longrightarrow> st_end row ! i \<le> st_start row ! Suc i)"
proof -
  from assms(3,4) obtain paths d where
    p: "those (map (\<lambda>s. samplePath (cn_prefix callNodeTable) (snd s)) samples) = Some paths"
    and ne: "samples \<noteq> []"
    and row: "row = toStackTiming (aggregateUntil (fst (last samples) + width)
                 (zip (map fst samples) (map (nodeAtDepth d) paths)))"
    by (auto simp: getStackTimingByDepthForStackChart_def split: option.splits if_splits)
  let ?zs = "zip (map fst samples) (map (nodeAtDepth d) paths)"
  from those_length [OF p] have len: "length paths = length samples" by simp
  then have times: "map fst ?zs = map fst samples" by simp
  from ne len have zne: "?zs \<noteq> []" by (cases samples; cases paths) auto
  have "fst (last ?zs) = last (map fst ?zs)" using zne by (simp add: last_map)
  also have "\<dots> = fst (last samples)" using ne by (simp only: times) (simp add: last_map)
  finally have "fst (last ?zs) \<le> fst (last samples) + width" using assms(2) by simp
  with assms(1) times have ch: "chained (spans (aggregateUntil (fst (last samples) + width) ?zs))"
    by (intro chained_aggregateUntil) simp_all
  from assms(5) chained_nth_spans [OF ch, of i] show ?thesis
    by (simp add: row toStackTiming_def)
qed

text \<open>The profile of the test, row by row.\<close>

lemma ex_test_paths:
  "those (map (\<lambda>s. samplePath (cn_prefix ex_testTable) (snd s)) ex_testSamples) =
     Some [[0, 1], [0, 1, 2], [0, 1, 2], [0, 1, 3], [0], [0, 1], [0, 1, 4], [0, 1, 4, 5],
           [0, 1, 4, 5, 6, 7, 8], [0, 1, 4]]"
  by (simp add: samplePath_def callNodePath.simps lookup_def ex_testTable_def ex_testSamples_def)

lemmas row_eval = aggregateUntil_def aggregateSample_def aggregateFinish_def toStackTiming_def
      nodeAtDepth_def

lemma ex_test_rows:
  "map (\<lambda>d. toStackTiming (aggregateUntil 91 (zip (map fst ex_testSamples)
      (map (nodeAtDepth d) [[0, 1], [0, 1, 2], [0, 1, 2], [0, 1, 3], [0], [0, 1], [0, 1, 4],
           [0, 1, 4, 5], [0, 1, 4, 5, 6, 7, 8], [0, 1, 4::nat]]))))
     [0, 1, 2, 3, 4, 5, 6] = ex_testStackTiming"
  unfolding list.map ex_testStackTiming_def
  by (intro conjI arg_cong2 [where f = Cons] refl)
     (simp_all add: row_eval ex_testSamples_def)

lemma ex_testStackTiming_eval:
  "getStackTimingByDepthForStackChart ex_testTable ex_testSamples 6 1 = Some ex_testStackTiming"
proof -
  have upt: "[0..<nat (6 + 1)] = [0, 1, 2, 3, 4, 5, 6]" by (simp add: upt_rec)
  have l: "fst (last ex_testSamples) + 1 = 91" and ne: "ex_testSamples \<noteq> []"
    by (simp_all add: ex_testSamples_def)
  have f: "filter (\<lambda>row. st_length row \<noteq> 0) ex_testStackTiming = ex_testStackTiming"
    by (simp add: ex_testStackTiming_def)
  show ?thesis
    unfolding getStackTimingByDepthForStackChart_def ex_test_paths upt l
    by (simp only: option.case ne if_False ex_test_rows f)
qed

lemma ex_test_rows_untrailed:
  "map (\<lambda>d. toStackTiming (aggregate (zip (map fst ex_testSamples)
      (map (nodeAtDepth d) [[0, 1], [0, 1, 2], [0, 1, 2], [0, 1, 3], [0], [0, 1], [0, 1, 4],
           [0, 1, 4, 5], [0, 1, 4, 5, 6, 7, 8], [0, 1, 4::nat]]))))
     [0, 1, 2, 3, 4, 5, 6] =
     [\<lparr>st_start = [0], st_end = [90], st_stack = [0], st_length = 1\<rparr>,
      \<lparr>st_start = [0, 50], st_end = [40, 90], st_stack = [1, 1], st_length = 2\<rparr>,
      \<lparr>st_start = [10, 30, 60], st_end = [30, 40, 90], st_stack = [2, 3, 4], st_length = 3\<rparr>,
      \<lparr>st_start = [70], st_end = [90], st_stack = [5], st_length = 1\<rparr>,
      \<lparr>st_start = [80], st_end = [90], st_stack = [6], st_length = 1\<rparr>,
      \<lparr>st_start = [80], st_end = [90], st_stack = [7], st_length = 1\<rparr>,
      \<lparr>st_start = [80], st_end = [90], st_stack = [8], st_length = 1\<rparr>]"
  unfolding list.map
  by (intro conjI arg_cong2 [where f = Cons] refl)
     (simp_all add: aggregate_def aggregateSample_def aggregateFinish_def toStackTiming_def
        nodeAtDepth_def ex_testSamples_def)

lemma ex_untrailed_eval:
  "getStackTimingByDepth ex_testTable ex_testSamples 6 =
     Some [\<lparr>st_start = [0], st_end = [90], st_stack = [0], st_length = 1\<rparr>,
      \<lparr>st_start = [0, 50], st_end = [40, 90], st_stack = [1, 1], st_length = 2\<rparr>,
      \<lparr>st_start = [10, 30, 60], st_end = [30, 40, 90], st_stack = [2, 3, 4], st_length = 3\<rparr>,
      \<lparr>st_start = [70], st_end = [90], st_stack = [5], st_length = 1\<rparr>,
      \<lparr>st_start = [80], st_end = [90], st_stack = [6], st_length = 1\<rparr>,
      \<lparr>st_start = [80], st_end = [90], st_stack = [7], st_length = 1\<rparr>,
      \<lparr>st_start = [80], st_end = [90], st_stack = [8], st_length = 1\<rparr>]"
proof -
  have upt: "[0..<nat (6 + 1)] = [0, 1, 2, 3, 4, 5, 6]" by (simp add: upt_rec)
  show ?thesis
    unfolding getStackTimingByDepth_def ex_test_paths upt option.case ex_test_rows_untrailed
    by simp
qed

section \<open>The aggregator and the builders: claims\<close>



text \<open>
  Claim C3, as stated, fails on the profile of the test "computes unfiltered stack timing
  by depth", whose row 0 holds one entity in every sample: the rows that the test expects
  end at 91, after the last sample's time 90. The stack chart with the synthetic width 1
  gives exactly those rows; the aggregator that ends at the last sample's time does not.
\<close>

theorem aggregate_last_end_counterexample:
  "getStackTimingByDepthForStackChart ex_testTable ex_testSamples 6 1 = Some ex_testStackTiming \<and>
   getStackTimingByDepth ex_testTable ex_testSamples 6 \<noteq> Some ex_testStackTiming \<and>
   fst (last ex_testSamples) = 90 \<and>
   aggregateUntil 91 (map (\<lambda>s. (fst s, Some (0::nat))) ex_testSamples) = [(0, 91, 0)] \<and>
   aggregate (map (\<lambda>s. (fst s, Some (0::nat))) ex_testSamples) = [(0, 90, 0)] \<and>
   st_stack (ex_testStackTiming ! 0) = [0] \<and>
   last (st_end (ex_testStackTiming ! 0)) = 91 \<and>
   last (st_end (ex_testStackTiming ! 0)) \<noteq> fst (last ex_testSamples)"
proof -
  have "getStackTimingByDepth ex_testTable ex_testSamples 6 \<noteq> Some ex_testStackTiming"
    unfolding ex_untrailed_eval by (simp add: ex_testStackTiming_def)
  moreover have "fst (last ex_testSamples) = 90" by (simp add: ex_testSamples_def)
  moreover have
    "aggregateUntil 91 (map (\<lambda>s. (fst s, Some (0::nat))) ex_testSamples) = [(0, 91, 0)]"
    "aggregate (map (\<lambda>s. (fst s, Some (0::nat))) ex_testSamples) = [(0, 90, 0)]"
    by (simp_all add: aggregate_def row_eval ex_testSamples_def)
  moreover have "st_stack (ex_testStackTiming ! 0) = [0]"
    "last (st_end (ex_testStackTiming ! 0)) = 91"
    by (simp_all add: ex_testStackTiming_def)
  ultimately show ?thesis using ex_testStackTiming_eval by simp
qed

text \<open>
  Claim C3, amended. For a non-empty sequence whose last sample has an entity id, the end
  of the last interval is the ending time that the caller of the aggregator supplies: the
  last sample's time where no trailing duration is synthesized, and for the stack chart
  the last sample's time plus its synthetic width. The stacks
  \<open>A,A,A / B,B,B / C,C,H / D,F,I / E,G\<close> at times 0, 1, 2 give row 0 of the stack chart the
  single interval of A from 0 to 2 plus the width, and row 2 the interval of C from 0 to 2
  and the interval of H from 2 to 2 plus the width.
\<close>

theorem aggregate_last_end:
  "(samples \<noteq> [] \<and> snd (last samples) \<noteq> None \<longrightarrow>
      aggregateUntil endingTime samples \<noteq> [] \<and>
      fst (snd (last (aggregateUntil endingTime samples))) = endingTime \<and>
      aggregate samples = aggregateUntil (fst (last samples)) samples \<and>
      fst (snd (last (aggregate samples))) = fst (last samples)) \<and>
   getStackTimingByDepthForStackChart ex_callNodeTable ex_samples 4 width =
     Some [\<lparr>st_start = [0], st_end = [2 + width], st_stack = [0], st_length = 1\<rparr>,
           \<lparr>st_start = [0], st_end = [2 + width], st_stack = [1], st_length = 1\<rparr>,
           \<lparr>st_start = [0, 2], st_end = [2, 2 + width], st_stack = [2, 7], st_length = 2\<rparr>,
           \<lparr>st_start = [0, 1, 2], st_end = [1, 2, 2 + width], st_stack = [3, 5, 8],
              st_length = 3\<rparr>,
           \<lparr>st_start = [0, 1], st_end = [1, 2], st_stack = [4, 6], st_length = 2\<rparr>]"
proof (intro conjI impI)
  assume a: "samples \<noteq> [] \<and> snd (last samples) \<noteq> None"
  then have ne: "samples \<noteq> []" and l: "snd (last samples) \<noteq> None" by simp_all
  from aggregateUntil_last_end [OF ne l, of endingTime]
  show "aggregateUntil endingTime samples \<noteq> []"
    and "fst (snd (last (aggregateUntil endingTime samples))) = endingTime" by simp_all
  show "aggregate samples = aggregateUntil (fst (last samples)) samples"
    by (rule aggregate_aggregateUntil)
  from aggregateUntil_last_end [OF ne l, of "fst (last samples)"]
  show "fst (snd (last (aggregate samples))) = fst (last samples)"
    by (simp add: aggregate_aggregateUntil)
next
  show "getStackTimingByDepthForStackChart ex_callNodeTable ex_samples 4 width =
     Some [\<lparr>st_start = [0], st_end = [2 + width], st_stack = [0], st_length = 1\<rparr>,
           \<lparr>st_start = [0], st_end = [2 + width], st_stack = [1], st_length = 1\<rparr>,
           \<lparr>st_start = [0, 2], st_end = [2, 2 + width], st_stack = [2, 7], st_length = 2\<rparr>,
           \<lparr>st_start = [0, 1, 2], st_end = [1, 2, 2 + width], st_stack = [3, 5, 8],
              st_length = 3\<rparr>,
           \<lparr>st_start = [0, 1], st_end = [1, 2], st_stack = [4, 6], st_length = 2\<rparr>]"
    by (simp add: getStackTimingByDepthForStackChart_def aggregateUntil_def aggregateSample_def
      aggregateFinish_def toStackTiming_def nodeAtDepth_def samplePath_def callNodePath.simps
      lookup_def ex_callNodeTable_def ex_samples_def upt_rec)
qed

theorem aggregate_last_end_witness:
  "[(0::int, Some (2::nat)), (1, Some 2), (2, Some 7)] \<noteq> [] \<and>
   snd (last [(0::int, Some (2::nat)), (1, Some 2), (2, Some 7)]) = Some 7 \<and>
   aggregateUntil 3 [(0::int, Some (2::nat)), (1, Some 2), (2, Some 7)] = [(0, 2, 2), (2, 3, 7)] \<and>
   fst (snd (last (aggregateUntil 3 [(0::int, Some (2::nat)), (1, Some 2), (2, Some 7)]))) = 3 \<and>
   aggregate [(0::int, Some (2::nat)), (1, Some 2), (2, Some 7)] = [(0, 2, 2), (2, 2, 7)]"
  using aggregate_last_end [of "[(0::int, Some (2::nat)), (1, Some 2), (2, Some 7)]" 3 0]
  by (simp add: aggregate_def aggregateUntil_def aggregateSample_def aggregateFinish_def)

text \<open>
  Claim C5. When every visible node is a node of the table, the max-depth computer returns
  the maximum depth of the non-null nodes of the samples in the committed range, and -1
  exactly when there is none; in particular a committed range that holds no sample time
  gives -1, which is not 0.
\<close>

theorem maxDepth_sentinel:
  "((\<forall>n\<in>set (visibleNodes committed samples). n < length (cn_depth callNodeTable)) \<longrightarrow>
      computeCallNodeMaxDepth callNodeTable committed samples =
        Some (if visibleNodes committed samples = [] then - 1
              else int (Max (set (map (\<lambda>n. cn_depth callNodeTable ! n)
                                      (visibleNodes committed samples))))) \<and>
      (computeCallNodeMaxDepth callNodeTable committed samples = Some (- 1) \<longleftrightarrow>
         visibleNodes committed samples = [])) \<and>
   ((\<forall>s\<in>set samples. \<not> inRange committed (fst s)) \<longrightarrow>
      visibleNodes committed samples = [] \<and>
      computeCallNodeMaxDepth callNodeTable committed samples = Some (- 1) \<and>
      computeCallNodeMaxDepth callNodeTable committed samples \<noteq> Some 0)"
proof (intro conjI impI)
  assume a: "\<forall>n\<in>set (visibleNodes committed samples). n < length (cn_depth callNodeTable)"
  then show r: "computeCallNodeMaxDepth callNodeTable committed samples =
        Some (if visibleNodes committed samples = [] then - 1
              else int (Max (set (map (\<lambda>n. cn_depth callNodeTable ! n)
                                      (visibleNodes committed samples)))))"
    by (simp add: computeCallNodeMaxDepth_def those_map_lookup foldl_max_depth_sentinel)
  show "computeCallNodeMaxDepth callNodeTable committed samples = Some (- 1) \<longleftrightarrow>
         visibleNodes committed samples = []"
    unfolding r by simp
next
  assume a: "\<forall>s\<in>set samples. \<not> inRange committed (fst s)"
  then show v: "visibleNodes committed samples = []"
    by (auto simp: visibleNodes_def split: option.splits)
  then show "computeCallNodeMaxDepth callNodeTable committed samples = Some (- 1)"
    by (simp add: computeCallNodeMaxDepth_def)
  then show "computeCallNodeMaxDepth callNodeTable committed samples \<noteq> Some 0" by simp
qed

theorem maxDepth_sentinel_witness:
  "visibleNodes (0, 2) ex_samples = [4, 6] \<and>
   4 < length (cn_depth ex_callNodeTable) \<and> 6 < length (cn_depth ex_callNodeTable) \<and>
   computeCallNodeMaxDepth ex_callNodeTable (0, 2) ex_samples = Some 4 \<and>
   \<not> inRange (5, 9) (fst (ex_samples ! 0)) \<and> \<not> inRange (5, 9) (fst (ex_samples ! 1)) \<and>
   \<not> inRange (5, 9) (fst (ex_samples ! 2)) \<and> length ex_samples = 3 \<and>
   computeCallNodeMaxDepth ex_callNodeTable (5, 9) ex_samples = Some (- 1)"
  using maxDepth_sentinel [of "(0, 2)" ex_samples ex_callNodeTable]
    maxDepth_sentinel [of "(5, 9)" ex_samples ex_callNodeTable]
  by (simp add: visibleNodes_def inRange_def ex_samples_def ex_callNodeTable_def)

text \<open>
  Claim C7. Hiding platform details is idempotent: applied to its own result it returns
  that result; and on a well-formed table it does return a result.
\<close>

theorem hidePlatformDetails_idempotent:
  "(\<forall>collapsed. hidePlatformDetails matches prefix assignment = Some collapsed \<longrightarrow>
      hidePlatformDetails matches prefix collapsed = Some collapsed) \<and>
   ((\<forall>n<length prefix. \<forall>p. prefix ! n = Some p \<longrightarrow> p < n) \<and>
    (\<forall>n. Some n \<in> set assignment \<longrightarrow> n < length prefix) \<longrightarrow>
      hidePlatformDetails matches prefix assignment \<noteq> None)"
proof (intro conjI allI impI)
  fix collapsed
  assume "hidePlatformDetails matches prefix assignment = Some collapsed"
  then show "hidePlatformDetails matches prefix collapsed = Some collapsed"
    unfolding hidePlatformDetails_def
    by (rule those_map_fixed) (rule collapseSample_fixed)
next
  assume a: "(\<forall>n<length prefix. \<forall>p. prefix ! n = Some p \<longrightarrow> p < n) \<and>
    (\<forall>n. Some n \<in> set assignment \<longrightarrow> n < length prefix)"
  have "collapseSample matches prefix node \<noteq> None" if "node \<in> set assignment" for node
  proof (cases node)
    case None
    then show ?thesis by (simp add: collapseSample_def)
  next
    case (Some n)
    with a that have "n < length prefix" by blast
    with a have "collapseNode matches prefix n \<noteq> None" by (intro collapseNode_defined) blast+
    with Some show ?thesis by (simp add: collapseSample_def)
  qed
  then show "hidePlatformDetails matches prefix assignment \<noteq> None"
    unfolding hidePlatformDetails_def by (intro those_map_defined) blast
qed

theorem hidePlatformDetails_idempotent_witness:
  "hidePlatformDetails ex_isJS (cn_prefix ex_callNodeTable) [Some 4, None, Some 6, Some 8, Some 1] =
     Some [Some 3, None, Some 2, Some 7, Some 0] \<and>
   hidePlatformDetails ex_isJS (cn_prefix ex_callNodeTable) [Some 3, None, Some 2, Some 7, Some 0] =
     Some [Some 3, None, Some 2, Some 7, Some 0]"
  using hidePlatformDetails_idempotent
    [of ex_isJS "cn_prefix ex_callNodeTable" "[Some 4, None, Some 6, Some 8, Some 1]"]
  by (simp add: hidePlatformDetails_def collapseSample_def collapseNode.simps lookup_def
      ex_isJS_def ex_callNodeTable_def)

section \<open>The flame graph: facts and claims\<close>

lemma sum_list_insort_key:
  "sum_list (map f (insort_key k x xs)) = (f x :: nat) + sum_list (map f xs)"
  by (induction xs) auto

lemma sum_list_sort_key: "sum_list (map f (sort_key k xs)) = sum_list (map (f::'a \<Rightarrow> nat) xs)"
  by (induction xs) (simp_all add: sum_list_insort_key)

lemma tree_node_sortTree: "tree_node (sortTree key t) = tree_node t"
  by (cases t) simp

lemma totalTime_sortTree: "totalTime (sortTree key t) = totalTime t"
proof (induction key t rule: sortTree.induct)
  case (1 key n self cs)
  from 1 have eq: "map (totalTime \<circ> sortTree key) cs = map totalTime cs"
    by (intro map_cong) simp_all
  have "sum_list (map totalTime (map (sortTree key) (sort_key key cs))) =
      sum_list (map (totalTime \<circ> sortTree key) (sort_key key cs))"
    by simp
  also have "\<dots> = sum_list (map (totalTime \<circ> sortTree key) cs)"
    by (rule sum_list_sort_key)
  also have "\<dots> = sum_list (map totalTime cs)"
    by (simp only: eq)
  finally show ?case by simp
qed

lemma sortForest_nodes: "map tree_node (sortForest key cs) = map tree_node (sort_key key cs)"
  by (simp add: sortForest_def tree_node_sortTree comp_def)

lemma sortForest_weights: "map totalTime (sortForest key cs) = map totalTime (sort_key key cs)"
  by (simp add: sortForest_def totalTime_sortTree comp_def)

lemma sortForest_total: "sum_list (map totalTime (sortForest key cs)) = sum_list (map totalTime cs)"
  by (simp add: sortForest_weights sum_list_sort_key)

lemma sortTree_layout:
  "layoutNode depth start (sortTree key (CallNodeTree n self cs)) =
     (depth, n, start, start + totalTime (CallNodeTree n self cs)) #
       layoutSiblings (Suc depth) start (sortForest key cs)"
  using sortForest_total [of key cs] by (simp add: sortForest_def comp_def)

lemma layout_within:
  "e \<in> set (layoutNode depth start t) \<Longrightarrow>
     depth \<le> fst e \<and> start \<le> fst (snd (snd e)) \<and> fst (snd (snd e)) \<le> snd (snd (snd e)) \<and>
     snd (snd (snd e)) \<le> start + totalTime t"
  "e \<in> set (layoutSiblings depth start cs) \<Longrightarrow>
     depth \<le> fst e \<and> start \<le> fst (snd (snd e)) \<and> fst (snd (snd e)) \<le> snd (snd (snd e)) \<and>
     snd (snd (snd e)) \<le> start + sum_list (map totalTime cs)"
proof (induction depth start t and depth start cs arbitrary: e and e
    rule: layoutNode_layoutSiblings.induct)
  case (1 depth start n self cs)
  from "1.prems" consider "e = (depth, n, start, start + totalTime (CallNodeTree n self cs))"
    | "e \<in> set (layoutSiblings (Suc depth) start cs)" by auto
  then show ?case
  proof cases
    case 1
    then show ?thesis by simp
  next
    case 2
    from "1.IH" [OF 2] show ?thesis by simp
  qed
next
  case (2 depth start)
  then show ?case by simp
next
  case (3 depth start c cs)
  from "3.prems" consider "e \<in> set (layoutNode depth start c)"
    | "e \<in> set (layoutSiblings depth (start + totalTime c) cs)" by auto
  then show ?case
  proof cases
    case 1
    from "3.IH"(1) [OF 1] show ?thesis by simp
  next
    case 2
    from "3.IH"(2) [OF 2] show ?thesis by simp
  qed
qed

lemma layout_level:
  "filter (\<lambda>e. fst e = depth) (layoutSiblings depth start cs) = siblingEntries depth start cs"
proof (induction cs arbitrary: start)
  case Nil
  show ?case by simp
next
  case (Cons c cs)
  obtain n self ds where c: "c = CallNodeTree n self ds" by (cases c)
  have "filter (\<lambda>e. fst e = depth) (layoutSiblings (Suc depth) start ds) = []"
  proof -
    have "fst e \<noteq> depth" if "e \<in> set (layoutSiblings (Suc depth) start ds)" for e
      using layout_within(2) [OF that] by simp
    then show ?thesis by (simp add: filter_empty_conv)
  qed
  with Cons [of "start + totalTime c"] show ?case by (simp add: c)
qed

lemma foldr_max_pos: "xs \<noteq> [] \<Longrightarrow> \<forall>x\<in>set xs. 0 < x \<Longrightarrow> 0 < foldr max xs (0::nat)"
  by (cases xs) (auto simp: max_def)

lemma treeHeight_pos: "0 < treeHeight t"
  by (cases t) simp

lemma getFlameGraphTiming_roots:
  assumes "roots \<noteq> []"
  shows "hd (getFlameGraphTiming key roots) =
     toFlameGraphTiming (siblingEntries 0 0 (sortForest key roots))"
proof -
  from assms have "0 < foldr max (map treeHeight roots) 0"
    by (intro foldr_max_pos) (auto simp: treeHeight_pos)
  then have "[0..<foldr max (map treeHeight roots) 0] =
      0 # [Suc 0..<foldr max (map treeHeight roots) 0]"
    by (simp add: upt_conv_Cons)
  then show ?thesis by (simp add: getFlameGraphTiming_def layout_level)
qed

lemmas flame_eval = getFlameGraphTiming_def sortForest_def byWeightDescending_def byCallNode_def
  toFlameGraphTiming_def ex_forest_def ex_forestShuffled_def ex_expectedFlameGraph_def

text \<open>
  Claim C4, as stated, fails: siblings are not laid out by total weight descending. On the
  forest of the test "weights heavier samples to the left", in whichever order its siblings
  are given, that order puts the root D of weight 3 at 0 to 3 and the root A of weight 1
  at 3 to 4, which is not the output the test expects, \<open>A (0:1) | D (1:4)\<close> and so on; the
  order by call-node index gives the expected output.
\<close>

theorem flameGraph_layout_counterexample:
  "getFlameGraphTiming byWeightDescending ex_forest =
     [\<lparr>fg_callNode = [3, 0], fg_start = [0, 3], fg_end = [3, 4], fg_length = 2\<rparr>,
      \<lparr>fg_callNode = [5, 4, 1], fg_start = [0, 2, 3], fg_end = [2, 3, 4], fg_length = 3\<rparr>,
      \<lparr>fg_callNode = [6, 2], fg_start = [0, 3], fg_end = [1, 4], fg_length = 2\<rparr>] \<and>
   getFlameGraphTiming byWeightDescending ex_forestShuffled =
     getFlameGraphTiming byWeightDescending ex_forest \<and>
   getFlameGraphTiming byWeightDescending ex_forest \<noteq> ex_expectedFlameGraph \<and>
   getFlameGraphTiming byCallNode ex_forest = ex_expectedFlameGraph \<and>
   getFlameGraphTiming byCallNode ex_forestShuffled = ex_expectedFlameGraph"
  by (simp add: flame_eval upt_rec)

text \<open>
  Claim C4, amended. The flame-graph builder lays out the call-node forest depth-first in a
  fixed order, the siblings sorted by a key at every level, the roots included: a node is
  followed by its children one level deeper; its span is as wide as the aggregate weight
  (self plus descendants) of its subtree; its children lie in the sorted order, the first
  at the parent's start and each next one where the one before it ends; and every
  descendant's span lies within the parent's span. The top row of the timing is the
  roots, sorted, laid out like this from 0.
\<close>

theorem flameGraph_layout:
  "layoutNode depth start (sortTree key (CallNodeTree n self cs)) =
     (depth, n, start, start + totalTime (CallNodeTree n self cs)) #
       layoutSiblings (Suc depth) start (sortForest key cs) \<and>
   filter (\<lambda>e. fst e = Suc depth) (layoutSiblings (Suc depth) start (sortForest key cs)) =
     siblingEntries (Suc depth) start (sortForest key cs) \<and>
   map tree_node (sortForest key cs) = map tree_node (sort_key key cs) \<and>
   map totalTime (sortForest key cs) = map totalTime (sort_key key cs) \<and>
   sorted (map key (sort_key key cs)) \<and>
   (\<forall>e\<in>set (layoutSiblings (Suc depth) start (sortForest key cs)).
      Suc depth \<le> fst e \<and> start \<le> fst (snd (snd e)) \<and>
      fst (snd (snd e)) \<le> snd (snd (snd e)) \<and>
      snd (snd (snd e)) \<le> start + totalTime (CallNodeTree n self cs)) \<and>
   (roots \<noteq> [] \<longrightarrow>
      hd (getFlameGraphTiming key roots) =
        toFlameGraphTiming (siblingEntries 0 0 (sortForest key roots)) \<and>
      map tree_node (sortForest key roots) = map tree_node (sort_key key roots) \<and>
      map totalTime (sortForest key roots) = map totalTime (sort_key key roots) \<and>
      sorted (map key (sort_key key roots)))"
proof (intro conjI ballI impI)
  show "layoutNode depth start (sortTree key (CallNodeTree n self cs)) =
     (depth, n, start, start + totalTime (CallNodeTree n self cs)) #
       layoutSiblings (Suc depth) start (sortForest key cs)"
    by (rule sortTree_layout)
  show "filter (\<lambda>e. fst e = Suc depth) (layoutSiblings (Suc depth) start (sortForest key cs)) =
     siblingEntries (Suc depth) start (sortForest key cs)"
    by (rule layout_level)
  show "map tree_node (sortForest key cs) = map tree_node (sort_key key cs)"
    by (rule sortForest_nodes)
  show "map totalTime (sortForest key cs) = map totalTime (sort_key key cs)"
    by (rule sortForest_weights)
  show "sorted (map key (sort_key key cs))" by simp
  show "map tree_node (sortForest key roots) = map tree_node (sort_key key roots)"
    by (rule sortForest_nodes)
  show "map totalTime (sortForest key roots) = map totalTime (sort_key key roots)"
    by (rule sortForest_weights)
  show "sorted (map key (sort_key key roots))" by simp
next
  fix e assume e: "e \<in> set (layoutSiblings (Suc depth) start (sortForest key cs))"
  note w = layout_within(2) [OF e]
  from w show "Suc depth \<le> fst e" by simp
  from w show "start \<le> fst (snd (snd e))" by simp
  from w show "fst (snd (snd e)) \<le> snd (snd (snd e))" by simp
  from w sortForest_total [of key cs]
  show "snd (snd (snd e)) \<le> start + totalTime (CallNodeTree n self cs)" by simp
next
  assume "roots \<noteq> []"
  then show "hd (getFlameGraphTiming key roots) =
        toFlameGraphTiming (siblingEntries 0 0 (sortForest key roots))"
    by (rule getFlameGraphTiming_roots)
qed

theorem flameGraph_layout_witness:
  "ex_forest \<noteq> [] \<and>
   hd (getFlameGraphTiming byCallNode ex_forestShuffled) =
     \<lparr>fg_callNode = [0, 3], fg_start = [0, 1], fg_end = [1, 4], fg_length = 2\<rparr> \<and>
   layoutNode 0 1 (sortTree byCallNode (ex_forest ! 1)) =
     [(0, 3, 1, 4), (1, 4, 1, 2), (1, 5, 2, 4), (2, 6, 2, 3)] \<and>
   siblingEntries 1 1 (sortForest byCallNode (tree_children (ex_forest ! 1))) =
     [(1, 4, 1, 2), (1, 5, 2, 4)]"
  using flameGraph_layout [of 0 1 byCallNode 3 0
      "[CallNodeTree 4 1 [], CallNodeTree 5 1 [CallNodeTree 6 1 []]]" ex_forestShuffled]
  by (simp add: flame_eval)


end
